theory Spec2Isabelle
  imports Main "HOL-Library.Sublist"
begin

section \<open>Strings and values of the platform\<close>

text \<open>
  Pathnames, patterns and header names are JavaScript strings; they are modelled as
  \<^typ>\<open>string\<close>, whose characters are the code units below 256: a string that holds a
  code unit from 256 on (U+2028 and U+2029 among them) is outside the model.  The
  string methods the sources call are written out as functions, one per method.

  A thrown value keeps what the sources read of it: its \<^verbatim>\<open>message\<close> property, when
  it has one that is neither \<^verbatim>\<open>null\<close> nor \<^verbatim>\<open>undefined\<close>, and \<^verbatim>\<open>String(e)\<close>.
  Each of the two is read where a string is needed, and the conversion to a string
  either gives the string or throws itself (an object without a usable
  \<^verbatim>\<open>toString\<close>, a symbol as message): \<open>Throws\<close> holds what it throws.
\<close>

abbreviation backslash :: char where
  "backslash \<equiv> CHR 0x5C"

datatype rendering = Rendered string | Throws thrown
  and thrown = Thrown (message: "rendering option") (as_string: rendering)

definition new_Error :: "string \<Rightarrow> thrown" where
  "new_Error msg = Thrown (Some (Rendered msg)) (Rendered (''Error: '' @ msg))"

text \<open>\<^verbatim>\<open>s.startsWith(pre)\<close>\<close>

fun startsWith :: "string \<Rightarrow> string \<Rightarrow> bool" where
  "startsWith [] s = True"
| "startsWith (p # ps) [] = False"
| "startsWith (p # ps) (c # cs) = (p = c \<and> startsWith ps cs)"

text \<open>\<^verbatim>\<open>s.includes(pat)\<close>: some position of \<open>s\<close> starts with \<open>pat\<close>.\<close>

fun str_includes :: "string \<Rightarrow> string \<Rightarrow> bool" where
  "str_includes pat [] = (pat = [])"
| "str_includes pat (c # cs) = (startsWith pat (c # cs) \<or> str_includes pat cs)"

text \<open>\<^verbatim>\<open>s.endsWith(suf)\<close>\<close>

definition endsWith :: "string \<Rightarrow> string \<Rightarrow> bool" where
  "endsWith suf s = startsWith (rev suf) (rev s)"

text \<open>\<^verbatim>\<open>s.split(sep)\<close> for a one-character separator: the result is never empty, and
  it is \<^verbatim>\<open>[""]\<close> on the empty string.\<close>

fun js_split :: "char \<Rightarrow> string \<Rightarrow> string list" where
  "js_split sep [] = [[]]"
| "js_split sep (c # cs) =
     (if c = sep then [] # js_split sep cs
      else (case js_split sep cs of
              [] \<Rightarrow> [[c]]
            | s # ss \<Rightarrow> (c # s) # ss))"

text \<open>\<^verbatim>\<open>xs.join(sep)\<close>\<close>

fun js_join :: "string \<Rightarrow> string list \<Rightarrow> string" where
  "js_join sep [] = []"
| "js_join sep [x] = x"
| "js_join sep (x # y # ys) = x @ sep @ js_join sep (y # ys)"

text \<open>\<^verbatim>\<open>s[i]\<close>, which is \<^verbatim>\<open>undefined\<close> beyond the end.\<close>

definition char_at :: "string \<Rightarrow> nat \<Rightarrow> char option" where
  "char_at s i = (if i < length s then Some (s ! i) else None)"

text \<open>\<^verbatim>\<open>s.replaceAll("\\", "/")\<close>\<close>

definition replace_backslashes :: "string \<Rightarrow> string" where
  "replace_backslashes s = map (\<lambda>c. if c = backslash then CHR ''/'' else c) s"

text \<open>Lower-casing of a header name (ASCII letters).\<close>

definition toLowerCase :: "string \<Rightarrow> string" where
  "toLowerCase s =
     map (\<lambda>c. if c \<in> set ''ABCDEFGHIJKLMNOPQRSTUVWXYZ''
              then char_of (of_char c + (32::nat)) else c) s"

text \<open>The character class \<^verbatim>\<open>\w\<close>.\<close>

definition word_char :: "char \<Rightarrow> bool" where
  "word_char c =
     (c \<in> set ''abcdefghijklmnopqrstuvwxyzABCDEFGHIJKLMNOPQRSTUVWXYZ0123456789_'')"

section \<open>Path normalizer (\<^verbatim>\<open>server/normalize-path.ts\<close>)\<close>

text \<open>
  The loop over the segments: empty and single-dot segments are skipped, a double-dot
  segment pops the last resolved segment (\<^verbatim>\<open>pop\<close> on an empty array does nothing),
  every other segment is pushed.
\<close>

fun resolve_segments :: "string list \<Rightarrow> string list \<Rightarrow> string list" where
  "resolve_segments [] resolved = resolved"
| "resolve_segments (segment # segments) resolved =
     (if segment = '''' \<or> segment = ''.'' then resolve_segments segments resolved
      else if segment = ''..'' then resolve_segments segments (butlast resolved)
      else resolve_segments segments (resolved @ [segment]))"

text \<open>The condition of the fast path (\<^verbatim>\<open>pathname[0]\<close> is read only where the
  length is at least two).\<close>

definition fast_path :: "string \<Rightarrow> bool" where
  "fast_path pathname =
     (pathname = ''/'' \<or>
      (length pathname > 1 \<and>
       hd pathname = CHR ''/'' \<and>
       \<not> str_includes ''//'' pathname \<and>
       \<not> str_includes ''/./'' pathname \<and>
       \<not> str_includes ''/../'' pathname \<and>
       \<not> endsWith ''/.'' pathname \<and>
       \<not> endsWith ''/..'' pathname))"

text \<open>The segment resolution below the fast path.\<close>

definition slow_path :: "string \<Rightarrow> string" where
  "slow_path pathname =
     ''/'' @ js_join ''/'' (resolve_segments (js_split (CHR ''/'') pathname) [])"

definition normalizePath :: "string \<Rightarrow> string" where
  "normalizePath pathname =
     (if fast_path pathname then pathname else slow_path pathname)"

section \<open>Safe regex compiler (\<^verbatim>\<open>__isSafeRegex\<close>, \<^verbatim>\<open>__safeRegExp\<close> of
  \<^verbatim>\<open>server/middleware-codegen.ts\<close>)\<close>

text \<open>
  \<^verbatim>\<open>quantifierAtDepth\<close> is a JavaScript array of booleans.  A write beyond its end
  extends it and leaves holes, which read as \<^verbatim>\<open>undefined\<close>; a hole is \<open>None\<close>.
\<close>

type_synonym flags = "bool option list"

definition arr_set :: "flags \<Rightarrow> nat \<Rightarrow> bool \<Rightarrow> flags" where
  "arr_set a i v =
     (if i < length a then a[i := Some v]
      else a @ replicate (i - length a) None @ [Some v])"

text \<open>Whether \<^verbatim>\<open>a[i]\<close> is truthy.\<close>

definition arr_truthy :: "flags \<Rightarrow> nat \<Rightarrow> bool" where
  "arr_truthy a i = (i < length a \<and> a ! i = Some True)"

text \<open>The inner loop that skips a character class: it returns the index of the closing
  bracket, or the length of the pattern.\<close>

function skip_class :: "string \<Rightarrow> nat \<Rightarrow> nat" where
  "skip_class pattern i =
     (if i < length pattern \<and> pattern ! i \<noteq> CHR '']''
      then skip_class pattern (if pattern ! i = backslash then i + 2 else i + 1)
      else i)"
  by pat_completeness auto
termination
  by (relation "measure (\<lambda>(pattern, i). length pattern - i)") auto

text \<open>The inner loop over \<^verbatim>\<open>/[\d,]/\<close> after an opening brace.\<close>

definition digit_or_comma :: "char \<Rightarrow> bool" where
  "digit_or_comma c = (c \<in> set ''0123456789,'')"

function scan_braces :: "string \<Rightarrow> nat \<Rightarrow> nat" where
  "scan_braces pattern j =
     (if j < length pattern \<and> digit_or_comma (pattern ! j)
      then scan_braces pattern (j + 1) else j)"
  by pat_completeness auto
termination
  by (relation "measure (\<lambda>(pattern, j). length pattern - j)") auto

declare skip_class.simps [simp del] scan_braces.simps [simp del]

lemma skip_class_ge: "i \<le> skip_class pattern i"
  by (induction pattern i rule: skip_class.induct) (subst skip_class.simps, auto split: if_splits)

lemma scan_braces_ge: "j \<le> scan_braces pattern j"
  by (induction pattern j rule: scan_braces.induct) (subst scan_braces.simps, auto)

text \<open>The main loop, with the state \<^verbatim>\<open>quantifierAtDepth\<close>, \<^verbatim>\<open>depth\<close>, \<^verbatim>\<open>i\<close>.\<close>

function isSafeRegex_loop :: "string \<Rightarrow> flags \<Rightarrow> nat \<Rightarrow> nat \<Rightarrow> bool" where
  "isSafeRegex_loop pattern quantifierAtDepth depth i =
     (if \<not> i < length pattern then True
      else
        let ch = pattern ! i in
        if ch = backslash then isSafeRegex_loop pattern quantifierAtDepth depth (i + 2)
        else if ch = CHR ''['' then
          isSafeRegex_loop pattern quantifierAtDepth depth (skip_class pattern (i + 1) + 1)
        else if ch = CHR ''('' then
          isSafeRegex_loop pattern
            (if length quantifierAtDepth \<le> depth + 1 then quantifierAtDepth @ [Some False]
             else quantifierAtDepth[depth + 1 := Some False])
            (depth + 1) (i + 1)
        else if ch = CHR '')'' then
          (let hadQ = (depth > 0 \<and> arr_truthy quantifierAtDepth depth);
               depth' = (if depth > 0 then depth - 1 else depth);
               next = char_at pattern (i + 1)
           in if next = Some (CHR ''+'') \<or> next = Some (CHR ''*'') \<or> next = Some (CHR ''{'') then
                (if hadQ then False
                 else isSafeRegex_loop pattern
                        (if depth' < length quantifierAtDepth
                         then arr_set quantifierAtDepth depth' True else quantifierAtDepth)
                        depth' (i + 1))
              else isSafeRegex_loop pattern quantifierAtDepth depth' (i + 1))
        else if ch = CHR ''+'' \<or> ch = CHR ''*'' then
          isSafeRegex_loop pattern
            (if depth > 0 then arr_set quantifierAtDepth depth True else quantifierAtDepth)
            depth (i + 1)
        else if ch = CHR ''?'' then
          (let prev = (if i > 0 then Some (pattern ! (i - 1)) else None)
           in isSafeRegex_loop pattern
                (if prev \<noteq> Some (CHR ''+'') \<and> prev \<noteq> Some (CHR ''*'') \<and>
                    prev \<noteq> Some (CHR ''?'') \<and> prev \<noteq> Some (CHR ''}'') \<and> depth > 0
                 then arr_set quantifierAtDepth depth True else quantifierAtDepth)
                depth (i + 1))
        else if ch = CHR ''{'' then
          (let j = scan_braces pattern (i + 1)
           in if j < length pattern \<and> pattern ! j = CHR ''}'' \<and> j > i + 1 then
                isSafeRegex_loop pattern
                  (if depth > 0 then arr_set quantifierAtDepth depth True else quantifierAtDepth)
                  depth (j + 1)
              else isSafeRegex_loop pattern quantifierAtDepth depth (i + 1))
        else isSafeRegex_loop pattern quantifierAtDepth depth (i + 1))"
  by pat_completeness auto
termination
  apply (relation "measure (\<lambda>(pattern, q, depth, i). length pattern - i)")
  apply (auto simp: Let_def)
  subgoal for pattern i using skip_class_ge[of "Suc i" pattern] by linarith
  done

declare isSafeRegex_loop.simps [simp del]

definition isSafeRegex :: "string \<Rightarrow> bool" where
  "isSafeRegex pattern = isSafeRegex_loop pattern [] 0 0"

text \<open>
  A compiled regular expression is used through \<^verbatim>\<open>test\<close> only, so it is the
  predicate it tests.  The platform's constructor \<^verbatim>\<open>new RegExp(pattern, flags)\<close> is a
  parameter of the model: it returns the compiled expression or throws.
  \<^verbatim>\<open>__safeRegExp\<close> returns \<^verbatim>\<open>null\<close> (here \<open>None\<close>) for a rejected pattern, without
  calling the constructor, and catches what the constructor throws; the warning it
  logs is not modelled.  \<^verbatim>\<open>server/middleware.ts\<close> imports the function under the name
  \<^verbatim>\<open>safeRegExp\<close> from \<^verbatim>\<open>config/config-matchers\<close>; the code generator emits this
  copy of it next to its copy of the pattern matcher.
\<close>

type_synonym regex = "string \<Rightarrow> bool"

type_synonym regexp_ctor = "string \<Rightarrow> string option \<Rightarrow> thrown + regex"

definition safeRegExp :: "regexp_ctor \<Rightarrow> string \<Rightarrow> string option \<Rightarrow> regex option" where
  "safeRegExp RegExp pattern flags =
     (if \<not> isSafeRegex pattern then None
      else (case RegExp pattern flags of Inl e \<Rightarrow> None | Inr re \<Rightarrow> Some re))"

section \<open>Pattern matcher (\<^verbatim>\<open>matchPattern\<close> of \<^verbatim>\<open>server/middleware.ts\<close>)\<close>

text \<open>
  The tokenizer is the global regular expression
  \<^verbatim>\<open>/\/:([\w-]+)\*|\/:([\w-]+)\+|:([\w-]+)|[.]|[^\/:.]+|./g\<close>.  One call of
  \<^verbatim>\<open>tokenRe.exec(pattern)\<close> is modelled on the rest of the pattern from
  \<^verbatim>\<open>lastIndex\<close> on: it returns the match (\<^verbatim>\<open>tok[0]\<close> and the three groups) and the
  rest after it, or \<open>None\<close> at the end of the pattern.  Every position matches one of
  the six alternatives, so a match always starts at \<^verbatim>\<open>lastIndex\<close>; the alternatives
  are tried in order, and a name is the longest run of \<^verbatim>\<open>[\w-]\<close>.
\<close>

definition name_char :: "char \<Rightarrow> bool" where
  "name_char c = (word_char c \<or> c = CHR ''-'')"

definition plain_char :: "char \<Rightarrow> bool" where
  "plain_char c = (c \<noteq> CHR ''/'' \<and> c \<noteq> CHR '':'' \<and> c \<noteq> CHR ''.'')"

record tok =
  tok0 :: string
  tok1 :: "string option"
  tok2 :: "string option"
  tok3 :: "string option"

fun tokenRe_exec :: "string \<Rightarrow> (tok \<times> string) option" where
  "tokenRe_exec [] = None"
| "tokenRe_exec (c # cs) =
     (let name = takeWhile name_char (tl cs); after = dropWhile name_char (tl cs) in
      if c = CHR ''/'' \<and> startsWith '':'' cs \<and> name \<noteq> [] \<and> startsWith ''*'' after then
        Some (\<lparr>tok0 = ''/:'' @ name @ ''*'', tok1 = Some name, tok2 = None, tok3 = None\<rparr>,
              tl after)
      else if c = CHR ''/'' \<and> startsWith '':'' cs \<and> name \<noteq> [] \<and> startsWith ''+'' after then
        Some (\<lparr>tok0 = ''/:'' @ name @ ''+'', tok1 = None, tok2 = Some name, tok3 = None\<rparr>,
              tl after)
      else if c = CHR '':'' \<and> takeWhile name_char cs \<noteq> [] then
        Some (\<lparr>tok0 = CHR '':'' # takeWhile name_char cs, tok1 = None, tok2 = None,
               tok3 = Some (takeWhile name_char cs)\<rparr>, dropWhile name_char cs)
      else if c = CHR ''.'' then
        Some (\<lparr>tok0 = ''.'', tok1 = None, tok2 = None, tok3 = None\<rparr>, cs)
      else if plain_char c then
        Some (\<lparr>tok0 = c # takeWhile plain_char cs, tok1 = None, tok2 = None, tok3 = None\<rparr>,
              dropWhile plain_char cs)
      else
        Some (\<lparr>tok0 = [c], tok1 = None, tok2 = None, tok3 = None\<rparr>, cs))"

lemma tokenRe_exec_shorter:
  assumes "tokenRe_exec s = Some (t, r)"
  shows "length r < length s"
proof (cases s)
  case Nil
  then show ?thesis using assms by simp
next
  case (Cons c cs)
  have a: "length (dropWhile P xs) \<le> length xs" for P and xs :: string
    by (simp add: length_dropWhile_le)
  have b: "length (tl (dropWhile P (tl xs))) \<le> length xs" for P and xs :: string
    using a[of P "tl xs"] by (cases xs) (auto simp: le_SucI)
  show ?thesis using assms Cons a[of name_char cs] a[of plain_char cs] b[of name_char cs]
    by (auto simp: Let_def less_Suc_eq_le split: if_splits)
qed

text \<open>The \<^verbatim>\<open>while ((tok = tokenRe.exec(pattern)) !== null)\<close> loop that builds
  \<^verbatim>\<open>regexStr\<close>.\<close>

function regexStr_loop :: "string \<Rightarrow> string \<Rightarrow> string" where
  "regexStr_loop rest regexStr =
     (case tokenRe_exec rest of
        None \<Rightarrow> regexStr
      | Some (tok, rest') \<Rightarrow>
          regexStr_loop rest'
            (regexStr @
              (if tok1 tok \<noteq> None then ''(?:/.*)?''
               else if tok2 tok \<noteq> None then ''(?:/.+)''
               else if tok3 tok \<noteq> None then ''([^/]+)''
               else if tok0 tok = ''.'' then [backslash, CHR ''.'']
               else tok0 tok)))"
  by pat_completeness auto
termination
  by (relation "measure (\<lambda>(rest, regexStr). length rest)") (auto dest: tokenRe_exec_shorter)

declare regexStr_loop.simps [simp del]

text \<open>The second half of \<^verbatim>\<open>matchPattern\<close>: the pattern as a path template, with exact
  string equality when the built expression does not compile.\<close>

definition template_match :: "regexp_ctor \<Rightarrow> string \<Rightarrow> string \<Rightarrow> bool" where
  "template_match RegExp pathname pattern =
     (let regexStr = regexStr_loop pattern [] in
      case safeRegExp RegExp (''^'' @ regexStr @ ''$'') None of
        Some re \<Rightarrow> re pathname
      | None \<Rightarrow> pathname = pattern)"

text \<open>\<^verbatim>\<open>matchPattern\<close>; \<^verbatim>\<open>matchMiddlewarePattern\<close> of
  \<^verbatim>\<open>server/middleware-codegen.ts\<close> is the same function.  Where the raw pattern does
  not compile, control falls through to the template.\<close>

definition matchPattern :: "regexp_ctor \<Rightarrow> string \<Rightarrow> string \<Rightarrow> bool" where
  "matchPattern RegExp pathname pattern =
     (if str_includes ''('' pattern \<or> str_includes [backslash] pattern then
        (case safeRegExp RegExp (''^'' @ pattern @ ''$'') None of
           Some re \<Rightarrow> re pathname
         | None \<Rightarrow> template_match RegExp pathname pattern)
      else template_match RegExp pathname pattern)"

section \<open>Matcher configuration (\<^verbatim>\<open>matchesMiddleware\<close>)\<close>

text \<open>
  The \<^verbatim>\<open>matcher\<close> export is \<^verbatim>\<open>undefined\<close>, a string, or an array whose entries are
  strings, objects (with or without a \<^verbatim>\<open>source\<close> field) or anything else.
\<close>

datatype matcher_entry = EntryString string | EntryObject "string option" | EntryOther

datatype matcher = MatcherUndefined | MatcherString string | MatcherArray "matcher_entry list"

text \<open>The loop over the entries of an array.\<close>

fun collect_patterns :: "matcher_entry list \<Rightarrow> string list \<Rightarrow> string list" where
  "collect_patterns [] patterns = patterns"
| "collect_patterns (EntryString m # ms) patterns = collect_patterns ms (patterns @ [m])"
| "collect_patterns (EntryObject (Some source) # ms) patterns =
     collect_patterns ms (patterns @ [source])"
| "collect_patterns (EntryObject None # ms) patterns = collect_patterns ms patterns"
| "collect_patterns (EntryOther # ms) patterns = collect_patterns ms patterns"

text \<open>\<^verbatim>\<open>!matcher\<close> holds of \<^verbatim>\<open>undefined\<close> and of the empty string.\<close>

fun matchesMiddleware :: "regexp_ctor \<Rightarrow> string \<Rightarrow> matcher \<Rightarrow> bool" where
  "matchesMiddleware RegExp pathname MatcherUndefined = True"
| "matchesMiddleware RegExp pathname (MatcherString m) =
     (if m = [] then True else list_ex (matchPattern RegExp pathname) [m])"
| "matchesMiddleware RegExp pathname (MatcherArray ms) =
     list_ex (matchPattern RegExp pathname) (collect_patterns ms [])"

section \<open>Middleware runner (\<^verbatim>\<open>runMiddleware\<close> of \<^verbatim>\<open>server/middleware.ts\<close>)\<close>

text \<open>
  A request is its parsed URL.  A \<^verbatim>\<open>Headers\<close> object is the sequence of pairs its
  iteration yields (names in lower case); \<^verbatim>\<open>append\<close> adds at the end and \<^verbatim>\<open>get\<close>
  joins the values of a name with a comma and a space.
\<close>

record Request =
  req_origin :: string
  req_pathname :: string
  req_search :: string

type_synonym Headers = "(string \<times> string) list"

record Response =
  status :: nat
  headers :: Headers
  body :: string

text \<open>\<^verbatim>\<open>new Response(body, { status })\<close> for a string body.\<close>

definition new_Response :: "string \<Rightarrow> nat \<Rightarrow> Response" where
  "new_Response b st =
     \<lparr>status = st, headers = [(''content-type'', ''text/plain;charset=UTF-8'')], body = b\<rparr>"

definition headers_get :: "Headers \<Rightarrow> string \<Rightarrow> string option" where
  "headers_get hs name =
     (case map snd (filter (\<lambda>kv. fst kv = toLowerCase name) hs) of
        [] \<Rightarrow> None
      | v # vs \<Rightarrow> Some (js_join '', '' (v # vs)))"

text \<open>The loop \<^verbatim>\<open>for (const [key, value] of response.headers)\<close> that appends the
  headers it keeps to \<^verbatim>\<open>responseHeaders\<close>.\<close>

fun copy_headers :: "(string \<Rightarrow> bool) \<Rightarrow> Headers \<Rightarrow> Headers \<Rightarrow> Headers" where
  "copy_headers keep [] forwarded = forwarded"
| "copy_headers keep ((key, v) # rest) forwarded =
     copy_headers keep rest (if keep key then forwarded @ [(key, v)] else forwarded)"

text \<open>
  The middleware function returns a response, returns nothing, or throws (a rejected
  promise is a throw at the \<^verbatim>\<open>await\<close>).  An export of the module is absent
  (\<^verbatim>\<open>null\<close> or \<^verbatim>\<open>undefined\<close>), a value that is not a function, or a function.
\<close>

type_synonym handler = "Request \<Rightarrow> thrown + Response option"

datatype export_value = Nullish | NotCallable | Function handler

record module =
  mod_proxy :: export_value
  mod_middleware :: export_value
  mod_default :: export_value
  mod_matcher :: matcher

text \<open>\<^verbatim>\<open>path.basename(filePath).replace(/\.\w+$/, "")\<close> (POSIX separators).\<close>

definition path_basename :: "string \<Rightarrow> string" where
  "path_basename p =
     rev (takeWhile (\<lambda>c. c \<noteq> CHR ''/'') (dropWhile (\<lambda>c. c = CHR ''/'') (rev p)))"

definition strip_extension :: "string \<Rightarrow> string" where
  "strip_extension b =
     (let ext = takeWhile word_char (rev b); rest = dropWhile word_char (rev b) in
      if ext \<noteq> [] \<and> rest \<noteq> [] \<and> hd rest = CHR ''.'' then rev (tl rest) else b)"

definition isProxyFile :: "string \<Rightarrow> bool" where
  "isProxyFile filePath = (strip_extension (path_basename filePath) = ''proxy'')"

text \<open>\<^verbatim>\<open>a ?? b\<close>\<close>

definition nullish_or :: "export_value \<Rightarrow> export_value \<Rightarrow> export_value" where
  "nullish_or a b = (case a of Nullish \<Rightarrow> b | _ \<Rightarrow> a)"

definition resolveMiddlewareHandler :: "module \<Rightarrow> string \<Rightarrow> thrown + handler" where
  "resolveMiddlewareHandler exports filePath =
     (let isProxy = isProxyFile filePath;
          handler = (if isProxy then nullish_or (mod_proxy exports) (mod_default exports)
                     else nullish_or (mod_middleware exports) (mod_default exports))
      in case handler of
           Function f \<Rightarrow> Inr f
         | _ \<Rightarrow>
           (let fileType = (if isProxy then ''Proxy'' else ''Middleware'');
                expectedExport = (if isProxy then ''proxy'' else ''middleware'')
            in Inl (new_Error (''The '' @ fileType @ '' file '' @ [CHR 0x22] @ filePath @
                 [CHR 0x22] @ '' must export a function named '' @ [CHR 0x60] @ expectedExport @
                 [CHR 0x60] @ '' or a '' @ [CHR 0x60] @ ''default'' @ [CHR 0x60] @
                 '' function.''))))"

record MiddlewareResult =
  continue :: bool
  redirectUrl :: "string option"
  redirectStatus :: "nat option"
  rewriteUrl :: "string option"
  rewriteStatus :: "nat option"
  responseHeaders :: "Headers option"
  response :: "Response option"

text \<open>An object literal \<^verbatim>\<open>{ continue: c }\<close>: every other field is absent.\<close>

definition directive :: "bool \<Rightarrow> MiddlewareResult" where
  "directive c = \<lparr>continue = c, redirectUrl = None, redirectStatus = None, rewriteUrl = None,
     rewriteStatus = None, responseHeaders = None, response = None\<rparr>"

text \<open>
  What \<^verbatim>\<open>runMiddleware\<close> takes from its environment: the module loader of the dev
  server, \<^verbatim>\<open>decodeURIComponent\<close> (which throws on malformed percent-encoding), the
  \<^verbatim>\<open>RegExp\<close> constructor, \<^verbatim>\<open>new URL(rewriteUrl, request.url)\<close> read at its
  \<^verbatim>\<open>pathname\<close> and \<^verbatim>\<open>search\<close>, the construction of a request with another
  pathname, and \<^verbatim>\<open>process.env.NODE_ENV\<close>.
\<close>

record runtime =
  ssrLoadModule :: "string \<Rightarrow> thrown + module"
  decodeURIComponent :: "string \<Rightarrow> thrown + string"
  new_RegExp :: regexp_ctor
  new_URL :: "string \<Rightarrow> Request \<Rightarrow> thrown + (string \<times> string)"
  with_pathname :: "Request \<Rightarrow> string \<Rightarrow> Request"
  NODE_ENV :: "string option"

text \<open>The part of \<^verbatim>\<open>runMiddleware\<close> after the middleware returned a response.\<close>

definition interpret_response :: "runtime \<Rightarrow> Request \<Rightarrow> Response \<Rightarrow> MiddlewareResult" where
  "interpret_response rt request resp =
     (if headers_get (headers resp) ''x-middleware-next'' = Some ''1'' then
        (directive True)\<lparr>responseHeaders :=
           Some (copy_headers
                  (\<lambda>key. key \<noteq> ''x-middleware-next'' \<and> key \<noteq> ''x-middleware-rewrite'')
                  (headers resp) [])\<rparr>
      else
        let location = (case headers_get (headers resp) ''Location'' of
                          Some l \<Rightarrow> Some l
                        | None \<Rightarrow> headers_get (headers resp) ''location'')
        in
        if status resp \<ge> 300 \<and> status resp < 400 \<and> location \<noteq> None \<and> location \<noteq> Some []
        then (directive False)\<lparr>redirectUrl := location, redirectStatus := Some (status resp)\<rparr>
        else
          (case headers_get (headers resp) ''x-middleware-rewrite'' of
             Some rewrite \<Rightarrow>
               if rewrite \<noteq> [] then
                 (let forwarded =
                        copy_headers (\<lambda>key. key \<noteq> ''x-middleware-rewrite'') (headers resp) [];
                      rewritePath = (case new_URL rt rewrite request of
                                       Inr (pathname, search) \<Rightarrow> pathname @ search
                                     | Inl e \<Rightarrow> rewrite)
                  in (directive True)\<lparr>rewriteUrl := Some rewritePath,
                       rewriteStatus := (if status resp \<noteq> 200 then Some (status resp) else None),
                       responseHeaders := Some forwarded\<rparr>)
               else (directive False)\<lparr>response := Some resp\<rparr>
           | None \<Rightarrow> (directive False)\<lparr>response := Some resp\<rparr>))"

text \<open>\<^verbatim>\<open>runMiddleware\<close>: a rejected promise is \<open>Inl\<close>.  The wrapping of the request in
  \<^verbatim>\<open>NextRequest\<close> adds accessors only and is left out.  In the \<^verbatim>\<open>catch\<close> block the
  message is built before the directive: outside production the string concatenation
  converts \<^verbatim>\<open>e?.message ?? String(e)\<close> to a string, and what that conversion throws
  leaves the function.\<close>

definition runMiddleware :: "runtime \<Rightarrow> string \<Rightarrow> Request \<Rightarrow> thrown + MiddlewareResult" where
  "runMiddleware rt middlewarePath request =
     (case ssrLoadModule rt middlewarePath of
        Inl e \<Rightarrow> Inl e
      | Inr exports \<Rightarrow>
        (case resolveMiddlewareHandler exports middlewarePath of
           Inl e \<Rightarrow> Inl e
         | Inr middlewareFn \<Rightarrow>
           (case decodeURIComponent rt (req_pathname request) of
              Inl e \<Rightarrow>
                Inr ((directive False)\<lparr>response := Some (new_Response ''Bad Request'' 400)\<rparr>)
            | Inr decodedPathname \<Rightarrow>
              (let normalizedPathname = normalizePath decodedPathname in
               if \<not> matchesMiddleware (new_RegExp rt) normalizedPathname (mod_matcher exports) then
                 Inr (directive True)
               else
                 let mwRequest = (if normalizedPathname \<noteq> req_pathname request
                                  then with_pathname rt request normalizedPathname else request)
                 in case middlewareFn mwRequest of
                      Inl e \<Rightarrow>
                        (case (if NODE_ENV rt = Some ''production''
                               then Rendered ''Internal Server Error''
                               else (case (case message e of Some m \<Rightarrow> m | None \<Rightarrow> as_string e) of
                                       Rendered s \<Rightarrow> Rendered (''Middleware Error: '' @ s)
                                     | Throws err \<Rightarrow> Throws err)) of
                           Rendered msg \<Rightarrow>
                             Inr ((directive False)\<lparr>response := Some (new_Response msg 500)\<rparr>)
                         | Throws err \<Rightarrow> Inl err)
                    | Inr None \<Rightarrow> Inr (directive True)
                    | Inr (Some resp) \<Rightarrow> Inr (interpret_response rt request resp)))))"

section \<open>Worker entries (\<^verbatim>\<open>server/app-router-entry.ts\<close> and the Pages Router
  worker entry)\<close>

text \<open>
  The handlers the entries delegate to act on the world outside (they render, fetch,
  log): each takes the state \<open>'w\<close> of that world and returns the new one, so that a
  \<^verbatim>\<open>fetch\<close> which leaves the state as it was has called none of them.
\<close>

datatype rsc_result = RscResponse Response | RscNullish | RscOther string

definition app_router_fetch ::
  "runtime \<Rightarrow> (Request \<Rightarrow> 'w \<Rightarrow> (thrown + rsc_result) \<times> 'w) \<Rightarrow> Request \<Rightarrow> 'w
     \<Rightarrow> (thrown + Response) \<times> 'w" where
  "app_router_fetch rt rscHandler request w =
     (let rawPathname = replace_backslashes (req_pathname request) in
      if startsWith ''//'' rawPathname then (Inr (new_Response ''404 Not Found'' 404), w)
      else
        (case decodeURIComponent rt rawPathname of
           Inl e \<Rightarrow> (Inr (new_Response ''Bad Request'' 400), w)
         | Inr decoded \<Rightarrow>
           (let normalizedPathname = normalizePath decoded;
                normalizedRequest = (if normalizedPathname \<noteq> req_pathname request
                                     then with_pathname rt request normalizedPathname else request)
            in case rscHandler normalizedRequest w of
                 (Inl e, w') \<Rightarrow> (Inl e, w')
               | (Inr (RscResponse r), w') \<Rightarrow> (Inr r, w')
               | (Inr RscNullish, w') \<Rightarrow> (Inr (new_Response ''Not Found'' 404), w')
               | (Inr (RscOther s), w') \<Rightarrow> (Inr (new_Response s 200), w'))))"

text \<open>The Pages Router entry: everything runs inside \<^verbatim>\<open>try\<close>, and what a handler
  throws becomes a 500 response.\<close>

definition pages_router_fetch ::
  "(Request \<Rightarrow> string \<Rightarrow> 'w \<Rightarrow> (thrown + Response) \<times> 'w) \<Rightarrow>
   (Request \<Rightarrow> string \<Rightarrow> 'w \<Rightarrow> (thrown + Response) \<times> 'w) \<Rightarrow> Request \<Rightarrow> 'w
     \<Rightarrow> (thrown + Response) \<times> 'w" where
  "pages_router_fetch handleApiRoute renderPage request w =
     (let pathname = req_pathname request;
          urlWithQuery = pathname @ req_search request
      in
      if startsWith ''//'' (replace_backslashes pathname) then
        (Inr (new_Response ''404 Not Found'' 404), w)
      else
        (case (if startsWith ''/api/'' pathname \<or> pathname = ''/api''
               then handleApiRoute request urlWithQuery w
               else renderPage request urlWithQuery w) of
           (Inl error, w') \<Rightarrow> (Inr (new_Response ''Internal Server Error'' 500), w')
         | (Inr r, w') \<Rightarrow> (Inr r, w')))"

section \<open>Notions the properties are stated with\<close>

subsection \<open>Canonical paths\<close>

text \<open>A segment that the normalizer keeps: not empty, not a dot segment, without a slash.\<close>

definition good_segment :: "string \<Rightarrow> bool" where
  "good_segment s = (s \<noteq> [] \<and> s \<noteq> ''.'' \<and> s \<noteq> ''..'' \<and> CHR ''/'' \<notin> set s)"

text \<open>The segments written one after the other, each behind a slash.\<close>

definition slashed :: "string list \<Rightarrow> string" where
  "slashed gs = concat (map (\<lambda>s. CHR ''/'' # s) gs)"

definition canonical :: "string \<Rightarrow> bool" where
  "canonical s =
     (\<not> str_includes ''//'' s \<and> \<not> str_includes ''/./'' s \<and> \<not> str_includes ''/../'' s \<and>
      \<not> endsWith ''/.'' s \<and> \<not> endsWith ''/..'' s \<and>
      startsWith ''/'' s \<and> \<not> startsWith ''//'' s)"

subsection \<open>The lexical structure of a pattern\<close>

text \<open>
  The scanner of \<^const>\<open>isSafeRegex\<close> reads a pattern as a sequence of items: an
  opening parenthesis, a closing parenthesis (with whether \<^verbatim>\<open>+\<close>, \<^verbatim>\<open>*\<close> or
  \<^verbatim>\<open>{\<close> comes right after it), a quantifier (\<^verbatim>\<open>+\<close>, \<^verbatim>\<open>*\<close>, a \<^verbatim>\<open>?\<close> that
  does not follow \<^verbatim>\<open>+\<close>, \<^verbatim>\<open>*\<close>, \<^verbatim>\<open>?\<close> or \<^verbatim>\<open>}\<close>, or braces around digits and
  commas), or anything else (an escaped character, a character class, a plain
  character).  \<open>tokens pattern i\<close> is that sequence from index \<open>i\<close> on.
\<close>

datatype rtok = TOpen | TClose bool | TQuant | TOther

function tokens :: "string \<Rightarrow> nat \<Rightarrow> rtok list" where
  "tokens pattern i =
     (if \<not> i < length pattern then []
      else
        let ch = pattern ! i in
        if ch = backslash then TOther # tokens pattern (i + 2)
        else if ch = CHR ''['' then TOther # tokens pattern (skip_class pattern (i + 1) + 1)
        else if ch = CHR ''('' then TOpen # tokens pattern (i + 1)
        else if ch = CHR '')'' then
          (let next = char_at pattern (i + 1)
           in TClose (next = Some (CHR ''+'') \<or> next = Some (CHR ''*'') \<or> next = Some (CHR ''{''))
              # tokens pattern (i + 1))
        else if ch = CHR ''+'' \<or> ch = CHR ''*'' then TQuant # tokens pattern (i + 1)
        else if ch = CHR ''?'' then
          (let prev = (if i > 0 then Some (pattern ! (i - 1)) else None)
           in (if prev \<noteq> Some (CHR ''+'') \<and> prev \<noteq> Some (CHR ''*'') \<and>
                  prev \<noteq> Some (CHR ''?'') \<and> prev \<noteq> Some (CHR ''}'')
               then TQuant else TOther) # tokens pattern (i + 1))
        else if ch = CHR ''{'' then
          (let j = scan_braces pattern (i + 1)
           in if j < length pattern \<and> pattern ! j = CHR ''}'' \<and> j > i + 1
              then TQuant # tokens pattern (j + 1)
              else TOther # tokens pattern (i + 1))
        else TOther # tokens pattern (i + 1))"
  by pat_completeness auto
termination
  apply (relation "measure (\<lambda>(pattern, i). length pattern - i)")
  apply (auto simp: Let_def)
  subgoal for pattern i using skip_class_ge[of "Suc i" pattern] by linarith
  done

declare tokens.simps [simp del]

text \<open>The scanner's state machine on the items.\<close>

fun scan :: "rtok list \<Rightarrow> flags \<Rightarrow> nat \<Rightarrow> bool" where
  "scan [] q d = True"
| "scan (TOther # ts) q d = scan ts q d"
| "scan (TQuant # ts) q d = scan ts (if d > 0 then arr_set q d True else q) d"
| "scan (TOpen # ts) q d =
     scan ts (if length q \<le> d + 1 then q @ [Some False] else q[d + 1 := Some False]) (d + 1)"
| "scan (TClose fq # ts) q d =
     (if fq then
        (if d > 0 \<and> arr_truthy q d then False
         else scan ts (if d - 1 < length q then arr_set q (d - 1) True else q) (d - 1))
      else scan ts q (d - 1))"

text \<open>\<open>bal ts k\<close>: the items \<open>ts\<close> close \<open>k\<close> groups that were open before them and every
  group they open; \<open>bal ts 0\<close> is a balanced sequence.\<close>

fun bal :: "rtok list \<Rightarrow> nat \<Rightarrow> bool" where
  "bal [] k = (k = 0)"
| "bal (TOpen # ts) k = bal ts (k + 1)"
| "bal (TClose f # ts) k = (k > 0 \<and> bal ts (k - 1))"
| "bal (TQuant # ts) k = bal ts k"
| "bal (TOther # ts) k = bal ts k"

text \<open>A group that contains a quantifier anywhere inside it, nested groups included, and
  is followed by \<^verbatim>\<open>+\<close>, \<^verbatim>\<open>*\<close> or \<^verbatim>\<open>{\<close>.\<close>

definition nested_any :: "rtok list \<Rightarrow> bool" where
  "nested_any ts =
     (\<exists>A B C. ts = A @ TOpen # B @ TClose True # C \<and> bal B 0 \<and> TQuant \<in> set B)"

text \<open>A group with a quantifier at its own nesting level (outside every group nested in
  it), followed by \<^verbatim>\<open>+\<close>, \<^verbatim>\<open>*\<close> or \<^verbatim>\<open>{\<close>.\<close>

definition nested_direct :: "rtok list \<Rightarrow> bool" where
  "nested_direct ts =
     (\<exists>A B1 B2 C. ts = A @ TOpen # B1 @ TQuant # B2 @ TClose True # C \<and> bal B1 0 \<and> bal B2 0)"

text \<open>A character that the scanner passes over one at a time and without effect: not a
  backslash, a bracket, a parenthesis, a quantifier character or an opening brace.\<close>

definition ordinary :: "char \<Rightarrow> bool" where
  "ordinary c = (c \<notin> set ''[()+*?{'' \<and> c \<noteq> backslash)"

subsection \<open>The regular expressions of path templates\<close>

text \<open>
  What a path template compiles to is a small fragment of the regular expressions of
  the platform: between \<^verbatim>\<open>^\<close> and \<^verbatim>\<open>$\<close>, a sequence of literal characters,
  \<^verbatim>\<open>\.\<close>, \<^verbatim>\<open>([^/]+)\<close>, \<^verbatim>\<open>(?:/.+)\<close> and \<^verbatim>\<open>(?:/.*)?\<close>.  The fragment is given its
  standard meaning here: \<open>template_regex\<close> parses it, and \<open>rx_matches\<close> decides a match
  by derivatives.  The dot matches every character but a line terminator; the line
  terminators of the language are U+000A, U+000D, U+2028 and U+2029, of which a
  string of the model can hold the first two.
\<close>

datatype rx = Nul | Eps | Chr char | Dot | NotChr char | Seq rx rx | Alt rx rx | Star rx

definition line_terminator :: "char \<Rightarrow> bool" where
  "line_terminator c = (c = CHR 0x0A \<or> c = CHR 0x0D)"

fun nullable :: "rx \<Rightarrow> bool" where
  "nullable Nul = False"
| "nullable Eps = True"
| "nullable (Chr c) = False"
| "nullable Dot = False"
| "nullable (NotChr c) = False"
| "nullable (Seq r s) = (nullable r \<and> nullable s)"
| "nullable (Alt r s) = (nullable r \<or> nullable s)"
| "nullable (Star r) = True"

fun deriv :: "char \<Rightarrow> rx \<Rightarrow> rx" where
  "deriv a Nul = Nul"
| "deriv a Eps = Nul"
| "deriv a (Chr c) = (if a = c then Eps else Nul)"
| "deriv a Dot = (if line_terminator a then Nul else Eps)"
| "deriv a (NotChr c) = (if a = c then Nul else Eps)"
| "deriv a (Seq r s) =
     (if nullable r then Alt (Seq (deriv a r) s) (deriv a s) else Seq (deriv a r) s)"
| "deriv a (Alt r s) = Alt (deriv a r) (deriv a s)"
| "deriv a (Star r) = Seq (deriv a r) (Star r)"

fun rx_matches :: "rx \<Rightarrow> string \<Rightarrow> bool" where
  "rx_matches r [] = nullable r"
| "rx_matches r (c # cs) = rx_matches (deriv c r) cs"

definition literal_char :: "char \<Rightarrow> bool" where
  "literal_char c = (c \<notin> set ''^$.*+?()[]{}|'' \<and> c \<noteq> backslash)"

function template_items :: "string \<Rightarrow> rx option" where
  "template_items s =
     (if s = [] then Some Eps
      else if startsWith ''(?:/.*)?'' s then
        map_option (Seq (Alt Eps (Seq (Chr (CHR ''/'')) (Star Dot)))) (template_items (drop 8 s))
      else if startsWith ''(?:/.+)'' s then
        map_option (Seq (Seq (Chr (CHR ''/'')) (Seq Dot (Star Dot)))) (template_items (drop 7 s))
      else if startsWith ''([^/]+)'' s then
        map_option (Seq (Seq (NotChr (CHR ''/'')) (Star (NotChr (CHR ''/'')))))
          (template_items (drop 7 s))
      else if startsWith [backslash, CHR ''.''] s then
        map_option (Seq (Chr (CHR ''.''))) (template_items (drop 2 s))
      else if literal_char (hd s) then map_option (Seq (Chr (hd s))) (template_items (tl s))
      else None)"
  by pat_completeness auto
termination
  by (relation "measure length") (auto simp: neq_Nil_conv)

declare template_items.simps [simp del]

definition template_regex :: "string \<Rightarrow> rx option" where
  "template_regex src =
     (if 2 \<le> length src \<and> hd src = CHR ''^'' \<and> last src = CHR ''$''
      then template_items (butlast (tl src)) else None)"



text \<open>The expression of a literal string followed by \<open>r\<close>.\<close>

definition lit_rx :: "string \<Rightarrow> rx \<Rightarrow> rx" where
  "lit_rx s r = foldr (\<lambda>c. Seq (Chr c)) s r"



text \<open>The constructor that implements the fragment and throws on every other
  expression; the examples below run on it.\<close>

definition template_RegExp :: regexp_ctor where
  "template_RegExp src flags =
     (case (template_regex src, flags) of
        (Some r, None) \<Rightarrow> Inr (rx_matches r)
      | _ \<Rightarrow> Inl (Thrown (Some (Rendered ''Invalid regular expression''))
                   (Rendered ''SyntaxError: Invalid regular expression'')))"


subsection \<open>Path templates\<close>

text \<open>
  A path template in the style of the route table: segments, each behind a slash and
  either literal text or a parameter \<^verbatim>\<open>:name\<close>, and at the end possibly one
  catch-all, \<^verbatim>\<open>/:name+\<close> or \<^verbatim>\<open>/:name*\<close>.  \<open>show_route\<close> is the pattern as it is
  written.
\<close>

datatype segment = Literal string | Param string




text \<open>Literal text: no slash, no colon and no character that is special in a regular
  expression but the dot.  A name is one or more characters of \<^verbatim>\<open>[\w-]\<close>.\<close>

definition literal_text :: "string \<Rightarrow> bool" where
  "literal_text s = (\<forall>c \<in> set s. c \<notin> set ''/:^$*+?()[]{}|'' \<and> c \<noteq> backslash)"











subsection \<open>An example environment\<close>

text \<open>
  A runtime for the examples: percent-decoding of the ASCII range (a percent sign that
  is not followed by two hexadecimal digits below \<^verbatim>\<open>80\<close> throws), URLs that are
  paths already, and a middleware in the style of
  \<^verbatim>\<open>tests/fixtures/pages-basic/middleware.ts\<close>: it throws on
  \<^verbatim>\<open>/middleware-throw\<close>, blocks \<^verbatim>\<open>/blocked\<close> and lets every other request pass with
  a header of its own.
\<close>

definition hex_value :: "char \<Rightarrow> nat option" where
  "hex_value c =
     (if c \<in> set ''0123456789'' then Some (of_char c - 48)
      else if c \<in> set ''abcdef'' then Some (of_char c - 87)
      else if c \<in> set ''ABCDEF'' then Some (of_char c - 55)
      else None)"

definition URIError :: thrown where
  "URIError = Thrown (Some (Rendered ''URI malformed'')) (Rendered ''URIError: URI malformed'')"

fun percent_decode :: "string \<Rightarrow> thrown + string" where
  "percent_decode [] = Inr []"
| "percent_decode (c # cs) =
     (if c = CHR ''%'' then
        (case cs of
           a # b # rest \<Rightarrow>
             (case (hex_value a, hex_value b) of
                (Some x, Some y) \<Rightarrow>
                  if 16 * x + y < 128 then
                    (case percent_decode rest of
                       Inl e \<Rightarrow> Inl e
                     | Inr s \<Rightarrow> Inr (char_of (16 * x + y) # s))
                  else Inl URIError
              | _ \<Rightarrow> Inl URIError)
         | _ \<Rightarrow> Inl URIError)
      else (case percent_decode cs of Inl e \<Rightarrow> Inl e | Inr s \<Rightarrow> Inr (c # s)))"

definition example_middleware :: handler where
  "example_middleware request =
     (if req_pathname request = ''/middleware-throw'' then Inl (new_Error ''middleware crash'')
      else if req_pathname request = ''/blocked'' then
        Inr (Some \<lparr>status = 403, headers = [(''content-type'', ''text/plain;charset=UTF-8'')],
                   body = ''Access Denied''\<rparr>)
      else
        Inr (Some \<lparr>status = 200,
                   headers = [(''x-custom-middleware'', ''active''), (''x-middleware-next'', ''1'')],
                   body = ''''\<rparr>))"

text \<open>A middleware whose response carries a rewrite target, a header of its own and an
  \<^verbatim>\<open>x-middleware-next\<close> header that is not \<^verbatim>\<open>1\<close>.\<close>

definition rewriting_middleware :: handler where
  "rewriting_middleware request =
     Inr (Some \<lparr>status = 200,
                headers = [(''x-custom'', ''a''), (''x-middleware-next'', ''0''),
                           (''x-middleware-rewrite'', ''/ssr'')],
                body = ''''\<rparr>)"

definition example_module :: "handler \<Rightarrow> module" where
  "example_module f =
     \<lparr>mod_proxy = Nullish, mod_middleware = Function f, mod_default = Nullish,
      mod_matcher = MatcherUndefined\<rparr>"

definition example_runtime :: "handler \<Rightarrow> string option \<Rightarrow> runtime" where
  "example_runtime f env =
     \<lparr>ssrLoadModule = (\<lambda>path. Inr (example_module f)),
      decodeURIComponent = percent_decode,
      new_RegExp = template_RegExp,
      new_URL = (\<lambda>u request. Inr (u, [])),
      with_pathname = (\<lambda>request p. request\<lparr>req_pathname := p\<rparr>),
      NODE_ENV = env\<rparr>"





definition example_request :: "string \<Rightarrow> Request" where
  "example_request p = \<lparr>req_origin = ''http://localhost'', req_pathname = p, req_search = ''''\<rparr>"

text \<open>Handlers for the worker entries that count their calls in the state.\<close>

definition counting_rsc :: "Request \<Rightarrow> nat \<Rightarrow> (thrown + rsc_result) \<times> nat" where
  "counting_rsc request n = (Inr RscNullish, Suc n)"

definition counting_page :: "Request \<Rightarrow> string \<Rightarrow> nat \<Rightarrow> (thrown + Response) \<times> nat" where
  "counting_page request u n = (Inr (new_Response u 200), Suc n)"

section \<open>Properties of the path normalizer\<close>

lemma startsWith_prefix: "startsWith p s = prefix p s"
  by (induction p s rule: startsWith.induct) auto

lemma str_includes_sublist: "str_includes pat s = sublist pat s"
  by (induction s) (auto simp: startsWith_prefix sublist_Cons_right)

lemma endsWith_suffix: "endsWith suf s = suffix suf s"
  by (simp add: endsWith_def startsWith_prefix suffix_to_prefix)

lemma endsWith_slash: "endsWith ''/'' s = (s \<noteq> [] \<and> last s = CHR ''/'')"
  by (cases s rule: rev_cases) (auto simp: endsWith_def)

lemma includes_append: "str_includes pat s \<Longrightarrow> str_includes pat (s @ t)"
  unfolding str_includes_sublist sublist_def by (metis append.assoc)

lemma endsWith_includes: "endsWith suf s \<Longrightarrow> str_includes (suf @ t) (s @ t)"
  unfolding endsWith_suffix str_includes_sublist by (auto simp: suffix_def)

lemma includes_startsWith: "startsWith pat s \<Longrightarrow> str_includes pat s"
  by (cases s; cases pat) auto

lemma includes_skip:
  "CHR ''/'' \<notin> set s \<Longrightarrow>
   str_includes (CHR ''/'' # pat) (s @ t) = str_includes (CHR ''/'' # pat) t"
  by (induction s) auto

lemma js_split_nonempty: "js_split sep s \<noteq> []"
  by (induction s) (auto split: list.splits)

lemma js_split_no_sep: "seg \<in> set (js_split sep s) \<Longrightarrow> sep \<notin> set seg"
  by (induction s arbitrary: seg) (auto split: list.splits if_splits)

lemma js_split_plain: "sep \<notin> set g \<Longrightarrow> js_split sep g = [g]"
  by (induction g) auto

lemma js_split_append: "sep \<notin> set g \<Longrightarrow> js_split sep (g @ sep # r) = g # js_split sep r"
  by (induction g) auto

lemma resolve_segments_good:
  "\<forall>s \<in> set segs. CHR ''/'' \<notin> set s \<Longrightarrow> \<forall>s \<in> set resolved. good_segment s
   \<Longrightarrow> \<forall>s \<in> set (resolve_segments segs resolved). good_segment s"
proof (induction segs arbitrary: resolved)
  case Nil
  then show ?case by simp
next
  case (Cons seg segs)
  have bl: "\<forall>s \<in> set (butlast resolved). good_segment s"
    using Cons.prems(2) by (meson in_set_butlastD)
  have segs: "\<forall>s \<in> set segs. CHR ''/'' \<notin> set s" using Cons.prems(1) by simp
  have seg: "CHR ''/'' \<notin> set seg" using Cons.prems(1) by simp
  consider (skip) "seg = '''' \<or> seg = ''.''" | (pop) "seg = ''..''"
    | (push) "seg \<noteq> ''''" "seg \<noteq> ''.''" "seg \<noteq> ''..''" by blast
  then show ?case
  proof cases
    case skip
    then show ?thesis using Cons.IH[OF segs Cons.prems(2)] by auto
  next
    case pop
    then show ?thesis using Cons.IH[OF segs bl] by simp
  next
    case push
    then have "good_segment seg" using seg by (simp add: good_segment_def)
    then have "\<forall>s \<in> set (resolved @ [seg]). good_segment s" using Cons.prems(2) by simp
    from Cons.IH[OF segs this] show ?thesis using push by simp
  qed
qed

lemma resolve_segments_subset:
  "set (resolve_segments segs resolved) \<subseteq> set segs \<union> set resolved"
proof (induction segs arbitrary: resolved)
  case Nil
  then show ?case by simp
next
  case (Cons seg segs)
  have "set (butlast resolved) \<subseteq> set resolved" by (auto dest: in_set_butlastD)
  then show ?case
    using Cons[of resolved] Cons[of "butlast resolved"] Cons[of "resolved @ [seg]"]
    by (simp; blast)
qed

lemma resolve_segments_all_good:
  "\<forall>s \<in> set gs. good_segment s \<Longrightarrow> resolve_segments gs acc = acc @ gs"
  by (induction gs arbitrary: acc) (auto simp: good_segment_def)

lemma resolved_good: "\<forall>s \<in> set (resolve_segments (js_split (CHR ''/'') p) []). good_segment s"
  by (rule resolve_segments_good) (auto dest: js_split_no_sep)

lemma slash_join_slashed: "gs \<noteq> [] \<Longrightarrow> ''/'' @ js_join ''/'' gs = slashed gs"
proof (induction gs)
  case Nil
  then show ?case by simp
next
  case (Cons g gs)
  then show ?case by (cases gs) (auto simp: slashed_def)
qed

lemma slashed_Cons: "slashed (g # gs) = CHR ''/'' # g @ slashed gs"
  by (simp add: slashed_def)

lemma slashed_append: "slashed (as @ bs) = slashed as @ slashed bs"
  by (simp add: slashed_def)

lemma slashed_hd: "slashed gs @ ''/'' = CHR ''/'' # tl (slashed gs @ ''/'')"
  by (cases gs) (auto simp: slashed_def)

lemma slashed_canonical:
  "\<forall>s \<in> set gs. good_segment s \<Longrightarrow>
     \<not> str_includes ''//'' (slashed gs @ ''/'') \<and>
     \<not> str_includes ''/./'' (slashed gs @ ''/'') \<and>
     \<not> str_includes ''/../'' (slashed gs @ ''/'')"
proof (induction gs)
  case Nil
  then show ?case by (simp add: slashed_def)
next
  case (Cons g gs)
  then have g: "good_segment g" and IH: "\<not> str_includes ''//'' (slashed gs @ ''/'')"
    "\<not> str_includes ''/./'' (slashed gs @ ''/'')" "\<not> str_includes ''/../'' (slashed gs @ ''/'')"
    by auto
  obtain r where r: "slashed gs @ ''/'' = CHR ''/'' # r" using slashed_hd by blast
  have ns: "CHR ''/'' \<notin> set g" using g by (simp add: good_segment_def)
  have 1: "\<not> startsWith ''/'' (g @ CHR ''/'' # r)" using g
    by (cases g) (auto simp: good_segment_def)
  have 2: "\<not> startsWith ''./'' (g @ CHR ''/'' # r)" using g
    by (cases g; cases "tl g") (auto simp: good_segment_def)
  have 3: "\<not> startsWith ''../'' (g @ CHR ''/'' # r)" using g
    by (cases g; cases "tl g"; cases "tl (tl g)") (auto simp: good_segment_def)
  show ?case
    using IH 1 2 3 includes_skip[OF ns, of _ "CHR ''/'' # r"]
    by (simp add: slashed_Cons r)
qed

lemma slashed_last:
  "gs \<noteq> [] \<Longrightarrow> \<forall>s \<in> set gs. good_segment s \<Longrightarrow> last (slashed gs) \<noteq> CHR ''/''"
proof (induction gs)
  case Nil
  then show ?case by simp
next
  case (Cons g gs)
  then have g0: "g \<noteq> []" "CHR ''/'' \<notin> set g" by (simp_all add: good_segment_def)
  then have g: "g \<noteq> []" "last g \<noteq> CHR ''/''" by (metis last_in_set)+
  show ?case
  proof (cases "gs = []")
    case True
    then show ?thesis using g by (simp add: slashed_def)
  next
    case False
    then obtain h hs where "gs = h # hs" by (cases gs) auto
    then have "slashed gs \<noteq> []" by (simp add: slashed_Cons)
    then show ?thesis using Cons False by (simp add: slashed_Cons)
  qed
qed

lemma js_split_slashed:
  "\<forall>s \<in> set gs. CHR ''/'' \<notin> set s \<Longrightarrow> gs \<noteq> [] \<Longrightarrow>
   js_split (CHR ''/'') (slashed gs) = [] # gs"
proof (induction gs)
  case Nil
  then show ?case by simp
next
  case (Cons g gs)
  show ?case
  proof (cases "gs = []")
    case True
    then show ?thesis using Cons.prems by (simp add: slashed_def js_split_plain)
  next
    case False
    then obtain h hs where h: "gs = h # hs" by (cases gs) auto
    have "js_split (CHR ''/'') (slashed gs) = [] # gs" using Cons False by simp
    then show ?thesis using Cons.prems
      by (simp add: slashed_Cons h js_split_append)
  qed
qed

lemma canonical_root: "canonical ''/''"
  by (simp add: canonical_def endsWith_def)

lemma slashed_is_canonical:
  assumes "\<forall>s \<in> set gs. good_segment s" "gs \<noteq> []"
  shows "canonical (slashed gs)" "length (slashed gs) > 1" "hd (slashed gs) = CHR ''/''"
proof -
  note c = slashed_canonical[OF assms(1)]
  have 1: "\<not> str_includes ''//'' (slashed gs)" using c includes_append by blast
  have 2: "\<not> str_includes ''/./'' (slashed gs)" using c includes_append by blast
  have 3: "\<not> str_includes ''/../'' (slashed gs)" using c includes_append by blast
  have 4: "\<not> endsWith ''/.'' (slashed gs)"
    using c endsWith_includes[of "''/.''" "slashed gs" "''/''"] by auto
  have 5: "\<not> endsWith ''/..'' (slashed gs)"
    using c endsWith_includes[of "''/..''" "slashed gs" "''/''"] by auto
  obtain g gs' where gs: "gs = g # gs'" using assms(2) by (cases gs) auto
  then have "g \<noteq> []" using assms(1) by (simp add: good_segment_def)
  then obtain a g' where g: "g = a # g'" by (cases g) auto
  show "length (slashed gs) > 1" by (simp add: gs g slashed_Cons)
  show "hd (slashed gs) = CHR ''/''" by (simp add: gs slashed_Cons)
  have 6: "startsWith ''/'' (slashed gs)" by (simp add: gs slashed_Cons)
  have 7: "\<not> startsWith ''//'' (slashed gs)" using 1 includes_startsWith by blast
  show "canonical (slashed gs)" using 1 2 3 4 5 6 7 by (simp add: canonical_def)
qed

lemma slow_path_cases:
  "slow_path p = ''/'' \<or>
   (\<exists>gs. gs \<noteq> [] \<and> (\<forall>s \<in> set gs. good_segment s) \<and> slow_path p = slashed gs \<and>
      gs = resolve_segments (js_split (CHR ''/'') p) [])"
proof (cases "resolve_segments (js_split (CHR ''/'') p) [] = []")
  case True
  then show ?thesis by (simp add: slow_path_def)
next
  case False
  then show ?thesis
    using resolved_good[of p] slash_join_slashed[OF False] by (auto simp: slow_path_def)
qed

lemma slow_path_canonical: "canonical (slow_path p)"
  using slow_path_cases[of p] canonical_root slashed_is_canonical(1) by auto

lemma slow_path_fast: "fast_path (slow_path p)"
  using slow_path_cases[of p] slashed_is_canonical
  by (auto simp: fast_path_def canonical_def)

lemma fast_path_canonical: "fast_path p \<Longrightarrow> canonical p"
  unfolding fast_path_def
proof (elim disjE conjE)
  assume "p = ''/''"
  then show ?thesis by (simp add: canonical_root)
next
  assume a: "1 < length p" "hd p = CHR ''/''" "\<not> str_includes ''//'' p"
    "\<not> str_includes ''/./'' p" "\<not> str_includes ''/../'' p" "\<not> endsWith ''/.'' p"
    "\<not> endsWith ''/..'' p"
  then have "startsWith ''/'' p" by (cases p) auto
  moreover have "\<not> startsWith ''//'' p" using a(3) includes_startsWith by blast
  ultimately show ?thesis using a by (simp add: canonical_def)
qed

text \<open>
  Claim C3.  For every pathname, the normalized path contains none of \<^verbatim>\<open>//\<close>,
  \<^verbatim>\<open>/./\<close> and \<^verbatim>\<open>/../\<close>, does not end in \<^verbatim>\<open>/.\<close> or \<^verbatim>\<open>/..\<close>, begins with exactly
  one slash, and normalizing it again changes nothing.
\<close>

theorem normalizePath_canonical_idempotent:
  "\<not> str_includes ''//'' (normalizePath p) \<and>
   \<not> str_includes ''/./'' (normalizePath p) \<and>
   \<not> str_includes ''/../'' (normalizePath p) \<and>
   \<not> endsWith ''/.'' (normalizePath p) \<and>
   \<not> endsWith ''/..'' (normalizePath p) \<and>
   startsWith ''/'' (normalizePath p) \<and>
   \<not> startsWith ''//'' (normalizePath p) \<and>
   normalizePath (normalizePath p) = normalizePath p"
proof -
  have c: "canonical (normalizePath p)"
    by (simp add: normalizePath_def fast_path_canonical slow_path_canonical)
  have f: "fast_path (normalizePath p)"
    by (simp add: normalizePath_def slow_path_fast)
  have "normalizePath (normalizePath p) = normalizePath p"
    using f by (simp add: normalizePath_def[of "normalizePath p"])
  then show ?thesis using c by (simp add: canonical_def)
qed

lemma js_join_Cons: "xs \<noteq> [] \<Longrightarrow> js_join sep (x # xs) = x @ sep @ js_join sep xs"
  by (cases xs) auto

lemma js_join_split: "js_join ''/'' (js_split (CHR ''/'') p) = p"
proof (induction p)
  case Nil
  then show ?case by simp
next
  case (Cons c cs)
  obtain s ss where s: "js_split (CHR ''/'') cs = s # ss"
    using js_split_nonempty[of "CHR ''/''" cs] by (cases "js_split (CHR ''/'') cs") auto
  show ?case
  proof (cases "c = CHR ''/''")
    case True
    then show ?thesis using Cons s by (simp add: js_join_Cons)
  next
    case False
    then show ?thesis using Cons s by (cases ss) auto
  qed
qed

lemma fast_path_segments:
  assumes "fast_path p" and "\<not> endsWith ''/'' p"
  shows "\<exists>gs. gs \<noteq> [] \<and> p = slashed gs \<and> (\<forall>g \<in> set gs. good_segment g)"
proof -
  have "p \<noteq> ''/''" using assms(2) by (auto simp: endsWith_def)
  with assms(1) have f: "length p > 1" "hd p = CHR ''/''" "\<not> str_includes ''//'' p"
    "\<not> str_includes ''/./'' p" "\<not> str_includes ''/../'' p" "\<not> endsWith ''/.'' p"
    "\<not> endsWith ''/..'' p"
    by (auto simp: fast_path_def)
  then obtain p' where p: "p = CHR ''/'' # p'" by (cases p) auto
  define gs where "gs = js_split (CHR ''/'') p'"
  have ne: "gs \<noteq> []" by (simp add: gs_def js_split_nonempty)
  have "p' = js_join ''/'' gs" by (simp add: gs_def js_join_split)
  then have ps: "p = slashed gs" using slash_join_slashed[OF ne] p by simp
  have "good_segment g" if g: "g \<in> set gs" for g
  proof -
    have nosl: "CHR ''/'' \<notin> set g" using g js_split_no_sep gs_def by blast
    from g obtain A B where AB: "gs = A @ g # B" by (meson split_list)
    have pe: "p = slashed A @ CHR ''/'' # g @ slashed B"
      by (simp add: ps AB slashed_append slashed_Cons)
    show ?thesis
    proof (cases B)
      case Nil
      then have e: "p = slashed A @ CHR ''/'' # g" using pe by (simp add: slashed_def)
      have "g \<noteq> []" using e assms(2) by (auto simp: endsWith_slash)
      moreover have "g \<noteq> ''.''" using e f(6) by (auto simp: endsWith_suffix suffix_def)
      moreover have "g \<noteq> ''..''" using e f(7) by (auto simp: endsWith_suffix suffix_def)
      ultimately show ?thesis using nosl by (simp add: good_segment_def)
    next
      case (Cons b B')
      then have e: "p = slashed A @ (CHR ''/'' # g @ ''/'') @ b @ slashed B'"
        using pe by (simp add: slashed_Cons)
      have s: "sublist (CHR ''/'' # g @ ''/'') p" by (subst e) (rule sublist_appendI)
      have "g \<noteq> []" using s f(3) by (auto simp: str_includes_sublist)
      moreover have "g \<noteq> ''.''" using s f(4) by (auto simp: str_includes_sublist)
      moreover have "g \<noteq> ''..''" using s f(5) by (auto simp: str_includes_sublist)
      ultimately show ?thesis using nosl by (simp add: good_segment_def)
    qed
  qed
  then show ?thesis using ne ps by blast
qed

lemma slow_path_slashed:
  assumes "gs \<noteq> []" and "\<forall>g \<in> set gs. good_segment g"
  shows "slow_path (slashed gs) = slashed gs"
proof -
  have "\<forall>s \<in> set gs. CHR ''/'' \<notin> set s" using assms(2) by (simp add: good_segment_def)
  then have "js_split (CHR ''/'') (slashed gs) = [] # gs"
    using assms(1) by (rule js_split_slashed)
  then show ?thesis
    using resolve_segments_all_good[OF assms(2), of "[]"] slash_join_slashed[OF assms(1)]
    by (simp add: slow_path_def)
qed

lemma slow_path_no_trailing_slash: "slow_path p = ''/'' \<or> \<not> endsWith ''/'' (slow_path p)"
  using slow_path_cases[of p] slashed_last by (auto simp: endsWith_slash)

text \<open>
  On the pathnames of the fast path, the segment resolution below it returns the
  pathname unchanged exactly when the pathname is the root or does not end in a slash.
\<close>

theorem fast_path_slow_path_agreement:
  assumes "fast_path p"
  shows "(slow_path p = p) = (p = ''/'' \<or> \<not> endsWith ''/'' p)"
proof (cases "p = ''/''")
  case True
  then show ?thesis by (simp add: slow_path_def)
next
  case False
  show ?thesis
  proof (cases "endsWith ''/'' p")
    case True
    then show ?thesis using False slow_path_no_trailing_slash[of p] by auto
  next
    case e: False
    from fast_path_segments[OF assms e] obtain gs
      where "gs \<noteq> []" "p = slashed gs" "\<forall>g \<in> set gs. good_segment g" by blast
    then show ?thesis using e slow_path_slashed by simp
  qed
qed


theorem fast_path_slow_path_agreement_witness:
  "fast_path ''/docs/guide'' \<and> slow_path ''/docs/guide'' = ''/docs/guide'' \<and>
   fast_path ''/docs/'' \<and> slow_path ''/docs/'' \<noteq> ''/docs/''"
proof -
  have a: "fast_path ''/docs/guide''" "fast_path ''/docs/''"
    by (simp_all add: fast_path_def endsWith_def)
  have b: "\<not> endsWith ''/'' ''/docs/guide''" "endsWith ''/'' ''/docs/''"
    by (simp_all add: endsWith_def)
  from fast_path_slow_path_agreement[OF a(1)] fast_path_slow_path_agreement[OF a(2)] a b
  show ?thesis by simp
qed

text \<open>
  Claim C4.  The fast path is taken on \<^verbatim>\<open>/a/\<close>, which is returned as it is, while the
  segment resolution below it gives \<^verbatim>\<open>/a\<close> on the same pathname: the two branches
  differ on a canonical pathname that ends in a slash.
\<close>

theorem normalizePath_fast_path_divergence:
  "fast_path ''/a/'' \<and> normalizePath ''/a/'' = ''/a/'' \<and> slow_path ''/a/'' = ''/a''"
  by (simp add: normalizePath_def fast_path_def slow_path_def endsWith_def)

lemma slow_path_segments:
  "set (js_split (CHR ''/'') (slow_path p)) \<subseteq> insert [] (set (js_split (CHR ''/'') p))"
  using slow_path_cases[of p]
proof (elim disjE exE conjE)
  assume "slow_path p = ''/''"
  then show ?thesis by simp
next
  fix gs assume gs: "gs \<noteq> []" "\<forall>s \<in> set gs. good_segment s" "slow_path p = slashed gs"
    "gs = resolve_segments (js_split (CHR ''/'') p) []"
  have "\<forall>s \<in> set gs. CHR ''/'' \<notin> set s" using gs(2) by (simp add: good_segment_def)
  then have 2: "js_split (CHR ''/'') (slashed gs) = [] # gs"
    using gs(1) by (rule js_split_slashed)
  have 3: "set gs \<subseteq> set (js_split (CHR ''/'') p)"
    using resolve_segments_subset[of "js_split (CHR ''/'') p" "[]"] gs(4) by simp
  show ?thesis using 2 3 gs(3) by auto
qed

text \<open>
  Claim C5, as amended.  For every input that does not end in a slash, the output is
  the root \<^verbatim>\<open>/\<close> or does not end in a slash; every input of the fast path is returned
  unchanged, a trailing slash included; and for every input, every segment of the
  output is empty or a segment of the input, so that nothing is decoded and no case is
  changed.
\<close>

theorem normalizePath_trailing_slash:
  assumes "\<not> endsWith ''/'' p" and "fast_path q"
  shows "(normalizePath p = ''/'' \<or> \<not> endsWith ''/'' (normalizePath p)) \<and>
         normalizePath q = q \<and>
         set (js_split (CHR ''/'') (normalizePath s)) \<subseteq> insert [] (set (js_split (CHR ''/'') s))"
proof -
  have 1: "normalizePath p = ''/'' \<or> \<not> endsWith ''/'' (normalizePath p)"
    using assms(1) slow_path_no_trailing_slash[of p] by (simp add: normalizePath_def)
  have 2: "normalizePath q = q" using assms(2) by (simp add: normalizePath_def)
  have 3: "set (js_split (CHR ''/'') (normalizePath s)) \<subseteq> insert [] (set (js_split (CHR ''/'') s))"
    using slow_path_segments[of s] by (auto simp: normalizePath_def)
  show ?thesis using 1 2 3 by simp
qed

theorem normalizePath_trailing_slash_witness:
  "\<not> endsWith ''/'' ''/a/../b/./c'' \<and> fast_path ''/docs/'' \<and>
   normalizePath ''/a/../b/./c'' = ''/b/c'' \<and> normalizePath ''/docs/'' = ''/docs/'' \<and>
   set (js_split (CHR ''/'') (normalizePath ''/A//%62/''))
     \<subseteq> insert [] (set (js_split (CHR ''/'') ''/A//%62/''))"
  using normalizePath_trailing_slash[of "''/a/../b/./c''" "''/docs/''" "''/A//%62/''"]
  by (simp add: normalizePath_def fast_path_def slow_path_def endsWith_def)

theorem normalizePath_root_counterexample:
  "\<not> endsWith ''/'' ''/a/..'' \<and> endsWith ''/'' (normalizePath ''/a/..'')"
  by (simp add: normalizePath_def fast_path_def slow_path_def endsWith_def)

section \<open>Properties of the safe regex compiler\<close>

text \<open>The loop of \<^const>\<open>isSafeRegex\<close> is the state machine \<^const>\<open>scan\<close> run on the items
  of the pattern.\<close>

lemma loop_scan: "isSafeRegex_loop pattern q d i = scan (tokens pattern i) q d"
proof (induction "length pattern - i" arbitrary: i q d rule: less_induct)
  case less
  show ?case
  proof (cases "i < length pattern")
    case False
    then show ?thesis
      by (subst isSafeRegex_loop.simps, subst tokens.simps) simp
  next
    case True
    have IH: "isSafeRegex_loop pattern q' d' i' = scan (tokens pattern i') q' d'"
      if "i < i'" for i' q' d'
      using less[of i' q' d'] that True by simp
    have sk: "i < Suc (skip_class pattern (Suc i))"
      using skip_class_ge[of "Suc i" pattern] by simp
    show ?thesis
      by (subst isSafeRegex_loop.simps, subst tokens.simps) (simp add: Let_def IH sk True)
  qed
qed

lemma arr_truthy_set: "arr_truthy (arr_set q i True) i"
  by (auto simp: arr_truthy_def arr_set_def nth_append)

lemma arr_truthy_keep: "arr_truthy q j \<Longrightarrow> arr_truthy (arr_set q i True) j"
  by (auto simp: arr_truthy_def arr_set_def nth_append nth_list_update)

lemma arr_truthy_open:
  "arr_truthy q j \<Longrightarrow> j \<le> d \<Longrightarrow>
   arr_truthy (if length q \<le> d + 1 then q @ [Some False] else q[d + 1 := Some False]) j"
  by (auto simp: arr_truthy_def nth_append nth_list_update)

text \<open>Across a sequence that closes \<open>k\<close> groups and every group it opens, the scanner
  either rejects or comes out \<open>k\<close> levels up, with every flag that was set at the outer
  levels still set.\<close>

lemma scan_balanced:
  "bal ts k \<Longrightarrow>
   scan (ts @ rest) q (d + k) = False \<or>
   (\<exists>q'. scan (ts @ rest) q (d + k) = scan rest q' d \<and>
         (\<forall>j \<le> d. arr_truthy q j \<longrightarrow> arr_truthy q' j))"
proof (induction ts arbitrary: k q)
  case Nil
  then show ?case by auto
next
  case (Cons t ts)
  show ?case
  proof (cases t)
    case TOpen
    let ?q1 = "if length q \<le> d + k + 1 then q @ [Some False] else q[d + k + 1 := Some False]"
    have b: "bal ts (k + 1)" using Cons.prems TOpen by simp
    have keep: "\<forall>j \<le> d. arr_truthy q j \<longrightarrow> arr_truthy ?q1 j"
      using arr_truthy_open[of q _ "d + k"] by auto
    from Cons.IH[OF b, of ?q1] keep show ?thesis using TOpen by (auto simp: add.assoc)
  next
    case (TClose f)
    then have k: "k > 0" and b: "bal ts (k - 1)" using Cons.prems by auto
    have dk: "d + k - 1 = d + (k - 1)" using k by simp
    show ?thesis
    proof (cases "f \<and> arr_truthy q (d + k)")
      case True
      then show ?thesis using TClose k by simp
    next
      case False
      let ?q1 = "if f then (if d + k - 1 < length q then arr_set q (d + k - 1) True else q) else q"
      have keep: "\<forall>j \<le> d. arr_truthy q j \<longrightarrow> arr_truthy ?q1 j"
        by (auto intro: arr_truthy_keep)
      have eq: "scan ((t # ts) @ rest) q (d + k) = scan (ts @ rest) ?q1 (d + (k - 1))"
        using False TClose k dk by auto
      from Cons.IH[OF b, of ?q1]
      consider (F) "scan (ts @ rest) ?q1 (d + (k - 1)) = False"
        | (S) q' where "scan (ts @ rest) ?q1 (d + (k - 1)) = scan rest q' d"
            "\<forall>j \<le> d. arr_truthy ?q1 j \<longrightarrow> arr_truthy q' j" by blast
      then show ?thesis
      proof cases
        case F
        then show ?thesis using eq by simp
      next
        case S
        have "\<forall>j \<le> d. arr_truthy q j \<longrightarrow> arr_truthy q' j" using keep S(2) by blast
        then show ?thesis using eq S(1) by metis
      qed
    qed
  next
    case TQuant
    let ?q1 = "if d + k > 0 then arr_set q (d + k) True else q"
    have b: "bal ts k" using Cons.prems TQuant by simp
    have keep: "\<forall>j \<le> d. arr_truthy q j \<longrightarrow> arr_truthy ?q1 j"
      by (auto intro: arr_truthy_keep)
    from Cons.IH[OF b, of ?q1] keep show ?thesis using TQuant by auto
  next
    case TOther
    then show ?thesis using Cons by auto
  qed
qed

lemma scan_step:
  "scan (t # ts) q d = False \<or> (\<exists>q' d'. scan (t # ts) q d = scan ts q' d')"
  by (cases t) auto

lemma scan_group_rejects:
  assumes "bal B1 0" "bal B2 0"
  shows "scan (TOpen # B1 @ TQuant # B2 @ TClose True # C) q d = False"
proof -
  let ?q0 = "if length q \<le> d + 1 then q @ [Some False] else q[d + 1 := Some False]"
  let ?r1 = "TQuant # B2 @ TClose True # C"
  have s0: "scan (TOpen # B1 @ ?r1) q d = scan (B1 @ ?r1) ?q0 (d + 1)" by simp
  from scan_balanced[OF assms(1), of ?r1 ?q0 "d + 1"]
  consider "scan (B1 @ ?r1) ?q0 (d + 1) = False"
    | q1 where "scan (B1 @ ?r1) ?q0 (d + 1) = scan ?r1 q1 (d + 1)" by auto
  then show ?thesis
  proof cases
    case 1
    then show ?thesis using s0 by simp
  next
    case 2
    note b1 = 2
    let ?q2 = "arr_set q1 (d + 1) True"
    have s2: "scan ?r1 q1 (d + 1) = scan (B2 @ TClose True # C) ?q2 (d + 1)" by simp
    from scan_balanced[OF assms(2), of "TClose True # C" ?q2 "d + 1"]
    consider "scan (B2 @ TClose True # C) ?q2 (d + 1) = False"
      | q3 where "scan (B2 @ TClose True # C) ?q2 (d + 1) = scan (TClose True # C) q3 (d + 1)"
          "arr_truthy ?q2 (d + 1) \<longrightarrow> arr_truthy q3 (d + 1)" by auto
    then show ?thesis
    proof cases
      case 1
      then show ?thesis using s0 b1 s2 by simp
    next
      case 2
      note c = 2
      have "arr_truthy q3 (d + 1)" using c(2) arr_truthy_set by blast
      then have "scan (TClose True # C) q3 (d + 1) = False" by simp
      then show ?thesis using s0 b1 s2 c(1) by simp
    qed
  qed
qed

lemma scan_any_prefix:
  assumes "\<And>q d. scan ts q d = False"
  shows "scan (A @ ts) q d = False"
proof (induction A arbitrary: q d)
  case Nil
  then show ?case using assms by simp
next
  case (Cons t A)
  from scan_step[of t "A @ ts" q d] Cons show ?case by auto
qed

lemma nested_direct_rejected:
  assumes "nested_direct (tokens pattern 0)"
  shows "\<not> isSafeRegex pattern"
proof -
  from assms obtain A B1 B2 C
    where ts: "tokens pattern 0 = A @ TOpen # B1 @ TQuant # B2 @ TClose True # C"
      and b: "bal B1 0" "bal B2 0" by (auto simp: nested_direct_def)
  have "scan (A @ TOpen # B1 @ TQuant # B2 @ TClose True # C) [] 0 = False"
    by (rule scan_any_prefix) (rule scan_group_rejects[OF b])
  then show ?thesis by (simp add: isSafeRegex_def loop_scan ts)
qed

lemma tokens_nested_plus:
  "tokens ''(a+)+'' 0 = [TOpen, TOther, TQuant, TClose True, TQuant]"
  by code_simp

lemma tokens_wrapped_plus:
  "tokens ''((a+))+'' 0 = [TOpen, TOpen, TOther, TQuant, TClose False, TClose True, TQuant]"
  by code_simp

lemma nested_direct_example: "nested_direct (tokens ''(a+)+'' 0)"
  unfolding nested_direct_def tokens_nested_plus
  by (rule exI[of _ "[]"], rule exI[of _ "[TOther]"], rule exI[of _ "[]"],
      rule exI[of _ "[TQuant]"]) simp

lemma drop_Cons_nth:
  assumes "drop i p = c # rest"
  shows "i < length p" "p ! i = c" "drop (Suc i) p = rest"
proof -
  show i: "i < length p" using assms by (cases "i < length p") auto
  show "p ! i = c" using assms i by (metis Cons_nth_drop_Suc list.inject)
  show "drop (Suc i) p = rest" using assms i by (metis Cons_nth_drop_Suc list.inject)
qed

lemma tokens_ordinary:
  assumes "drop i p = s @ rest" and "\<forall>c \<in> set s. ordinary c"
  shows "tokens p i = replicate (length s) TOther @ tokens p (i + length s)"
  using assms
proof (induction s arbitrary: i)
  case Nil
  then show ?case by simp
next
  case (Cons c s)
  then have d: "drop i p = c # (s @ rest)" by simp
  note n = drop_Cons_nth[OF d]
  have o: "ordinary c" using Cons.prems(2) by simp
  have step: "tokens p i = TOther # tokens p (i + 1)"
    using n(1,2) o by (subst tokens.simps) (auto simp: ordinary_def Let_def)
  have "tokens p (Suc i) = replicate (length s) TOther @ tokens p (Suc i + length s)"
    using Cons.IH[of "Suc i"] n(3) Cons.prems(2) by simp
  then show ?case using step by simp
qed

lemma tokens_open:
  assumes "drop i p = CHR ''('' # rest"
  shows "tokens p i = TOpen # tokens p (i + 1)"
  using drop_Cons_nth[OF assms] by (subst tokens.simps) (simp add: Let_def)

lemma tokens_quant:
  assumes "drop i p = q # rest" and "q = CHR ''+'' \<or> q = CHR ''*''"
  shows "tokens p i = TQuant # tokens p (i + 1)"
  using drop_Cons_nth[OF assms(1)] assms(2) by (subst tokens.simps) (auto simp: Let_def)

lemma tokens_close:
  assumes "drop i p = CHR '')'' # c # rest" and "c = CHR ''+'' \<or> c = CHR ''*'' \<or> c = CHR ''{''"
  shows "tokens p i = TClose True # tokens p (i + 1)"
proof -
  note n = drop_Cons_nth[OF assms(1)]
  note m = drop_Cons_nth[OF n(3)]
  have "char_at p (i + 1) = Some c" using m by (simp add: char_at_def)
  then show ?thesis using n assms(2) by (subst tokens.simps) (auto simp: Let_def)
qed

lemma bal_others: "bal (replicate n TOther) 0"
  by (induction n) auto

lemma plain_nested_shape:
  assumes "\<forall>x \<in> set pre. ordinary x" and "\<forall>x \<in> set b1. ordinary x"
    and "\<forall>x \<in> set b2. ordinary x"
    and "q = CHR ''+'' \<or> q = CHR ''*''"
    and "c = CHR ''+'' \<or> c = CHR ''*'' \<or> c = CHR ''{''"
  shows "nested_direct (tokens (pre @ ''('' @ b1 @ [q] @ b2 @ '')'' @ [c] @ post) 0)"
proof -
  let ?p = "pre @ ''('' @ b1 @ [q] @ b2 @ '')'' @ [c] @ post"
  let ?i1 = "length pre" let ?i2 = "length pre + 1" let ?i3 = "length pre + 1 + length b1"
  let ?i4 = "length pre + 1 + length b1 + 1"
  let ?i5 = "length pre + 1 + length b1 + 1 + length b2"
  have d0: "drop 0 ?p = pre @ (''('' @ b1 @ [q] @ b2 @ '')'' @ [c] @ post)" by simp
  have d1: "drop ?i1 ?p = CHR ''('' # (b1 @ [q] @ b2 @ '')'' @ [c] @ post)" by simp
  have d2: "drop ?i2 ?p = b1 @ ([q] @ b2 @ '')'' @ [c] @ post)" by simp
  have d3: "drop ?i3 ?p = q # (b2 @ '')'' @ [c] @ post)" by simp
  have d4: "drop ?i4 ?p = b2 @ ('')'' @ [c] @ post)" by simp
  have d5: "drop ?i5 ?p = CHR '')'' # c # post" by simp
  have t0: "tokens ?p 0 = replicate (length pre) TOther @ tokens ?p ?i1"
    using tokens_ordinary[OF d0 assms(1)] by simp
  have t1: "tokens ?p ?i1 = TOpen # tokens ?p ?i2" using tokens_open[OF d1] by simp
  have t2: "tokens ?p ?i2 = replicate (length b1) TOther @ tokens ?p ?i3"
    using tokens_ordinary[OF d2 assms(2)] by simp
  have t3: "tokens ?p ?i3 = TQuant # tokens ?p ?i4" using tokens_quant[OF d3 assms(4)] by simp
  have t4: "tokens ?p ?i4 = replicate (length b2) TOther @ tokens ?p ?i5"
    using tokens_ordinary[OF d4 assms(3)] by simp
  have t5: "tokens ?p ?i5 = TClose True # tokens ?p (?i5 + 1)"
    using tokens_close[OF d5 assms(5)] by simp
  have "tokens ?p 0 = replicate (length pre) TOther @ TOpen # replicate (length b1) TOther @
          TQuant # replicate (length b2) TOther @ TClose True # tokens ?p (?i5 + 1)"
    by (simp only: t0 t1 t2 t3 t4 t5)
  then show ?thesis
    unfolding nested_direct_def using bal_others by blast
qed

text \<open>
  Claim C2, as amended.  A pattern in which a group has a quantifier at its own nesting
  level (\<^verbatim>\<open>+\<close>, \<^verbatim>\<open>*\<close>, a \<^verbatim>\<open>?\<close> that does not follow \<^verbatim>\<open>+\<close>, \<^verbatim>\<open>*\<close>, \<^verbatim>\<open>?\<close> or
  \<^verbatim>\<open>}\<close>, or braces around digits and commas; escaped characters and character classes
  do not count) and is immediately followed by \<^verbatim>\<open>+\<close>, \<^verbatim>\<open>*\<close> or \<^verbatim>\<open>{\<close> is rejected by
  \<^const>\<open>isSafeRegex\<close>; so is, in particular, every pattern that holds a group of ordinary
  characters with \<^verbatim>\<open>+\<close> or \<^verbatim>\<open>*\<close> among them, followed by \<^verbatim>\<open>+\<close>, \<^verbatim>\<open>*\<close> or \<^verbatim>\<open>{\<close>,
  after ordinary characters, such as \<^verbatim>\<open>(a+)+\<close>.  \<^const>\<open>safeRegExp\<close> returns \<^verbatim>\<open>null\<close> for
  every pattern that \<^const>\<open>isSafeRegex\<close> rejects and for every pattern on which the
  constructor throws; for every pattern that \<^const>\<open>isSafeRegex\<close> accepts and the
  constructor compiles it returns the compiled expression; and it never throws.
\<close>

theorem safe_regex_compiler:
  "(nested_direct (tokens pattern 0) \<longrightarrow> \<not> isSafeRegex pattern) \<and>
   ((\<forall>x \<in> set pre. ordinary x) \<and> (\<forall>x \<in> set b1. ordinary x) \<and> (\<forall>x \<in> set b2. ordinary x) \<and>
    (q = CHR ''+'' \<or> q = CHR ''*'') \<and> (c = CHR ''+'' \<or> c = CHR ''*'' \<or> c = CHR ''{'') \<longrightarrow>
      \<not> isSafeRegex (pre @ ''('' @ b1 @ [q] @ b2 @ '')'' @ [c] @ post)) \<and>
   (\<not> isSafeRegex pattern \<longrightarrow> safeRegExp RegExp pattern flags = None) \<and>
   ((\<exists>e. RegExp pattern flags = Inl e) \<longrightarrow> safeRegExp RegExp pattern flags = None) \<and>
   (isSafeRegex pattern \<and> RegExp pattern flags = Inr re \<longrightarrow>
      safeRegExp RegExp pattern flags = Some re) \<and>
   (safeRegExp RegExp pattern flags = None \<or>
    (\<exists>re. RegExp pattern flags = Inr re \<and> safeRegExp RegExp pattern flags = Some re))"
proof -
  have 1: "nested_direct (tokens pattern 0) \<longrightarrow> \<not> isSafeRegex pattern"
    using nested_direct_rejected[of pattern] by blast
  have 2: "(\<forall>x \<in> set pre. ordinary x) \<and> (\<forall>x \<in> set b1. ordinary x) \<and> (\<forall>x \<in> set b2. ordinary x) \<and>
    (q = CHR ''+'' \<or> q = CHR ''*'') \<and> (c = CHR ''+'' \<or> c = CHR ''*'' \<or> c = CHR ''{'') \<longrightarrow>
      \<not> isSafeRegex (pre @ ''('' @ b1 @ [q] @ b2 @ '')'' @ [c] @ post)"
    using plain_nested_shape[of pre b1 b2 q c post]
      nested_direct_rejected[of "pre @ ''('' @ b1 @ [q] @ b2 @ '')'' @ [c] @ post"]
    by blast
  have 3: "(\<not> isSafeRegex pattern \<longrightarrow> safeRegExp RegExp pattern flags = None) \<and>
   ((\<exists>e. RegExp pattern flags = Inl e) \<longrightarrow> safeRegExp RegExp pattern flags = None) \<and>
   (safeRegExp RegExp pattern flags = None \<or>
    (\<exists>re. RegExp pattern flags = Inr re \<and> safeRegExp RegExp pattern flags = Some re))"
    by (auto simp: safeRegExp_def split: sum.splits)
  have 4: "isSafeRegex pattern \<and> RegExp pattern flags = Inr re \<longrightarrow>
      safeRegExp RegExp pattern flags = Some re"
    by (simp add: safeRegExp_def)
  show ?thesis using 1 2 3 4 by blast
qed

theorem safe_regex_compiler_witness:
  "nested_direct (tokens ''(a+)+'' 0) \<and> \<not> isSafeRegex ''(a+)+'' \<and>
   safeRegExp template_RegExp ''(a+)+'' None = None \<and>
   list_all ordinary ''^/'' \<and> list_all ordinary ''ab'' \<and>
   \<not> isSafeRegex (''^/'' @ ''('' @ ''ab'' @ [CHR ''*''] @ ''ab'' @ '')'' @ [CHR ''{''] @ ''2,}$'') \<and>
   isSafeRegex ''(a'' \<and> (\<exists>e. template_RegExp ''(a'' None = Inl e) \<and>
   safeRegExp template_RegExp ''(a'' None = None \<and>
   isSafeRegex ''^/a$'' \<and>
   template_RegExp ''^/a$'' None = Inr (rx_matches (lit_rx ''/a'' Eps)) \<and>
   safeRegExp template_RegExp ''^/a$'' None = Some (rx_matches (lit_rx ''/a'' Eps))"
proof -
  have 1: "isSafeRegex ''(a''" by code_simp
  have 2: "\<exists>e. template_RegExp ''(a'' None = Inl e"
    by (simp add: template_RegExp_def template_regex_def)
  have 3: "\<forall>x \<in> set ''^/''. ordinary x" "\<forall>x \<in> set ''ab''. ordinary x"
    by (simp_all add: ordinary_def)
  have 4: "isSafeRegex ''^/a$''" by code_simp
  have "template_regex ''^/a$'' = Some (lit_rx ''/a'' Eps)" by code_simp
  then have 5: "template_RegExp ''^/a$'' None = Inr (rx_matches (lit_rx ''/a'' Eps))"
    by (simp add: template_RegExp_def)
  from safe_regex_compiler[of "''(a+)+''" "[]" "[]" "[]" "CHR ''+''" "CHR ''+''" "[]"
      template_RegExp None]
    safe_regex_compiler[of "''(a''" "''^/''" "''ab''" "''ab''" "CHR ''*''" "CHR ''{''" "''2,}$''"
      template_RegExp None]
    safe_regex_compiler[where pattern="''^/a$''" and RegExp=template_RegExp and flags=None
      and re="rx_matches (lit_rx ''/a'' Eps)"]
    nested_direct_example 1 2 3 4 5
  show ?thesis unfolding list_all_iff by blast
qed

text \<open>The group of \<^verbatim>\<open>((a+))+\<close> contains the quantified \<^verbatim>\<open>a+\<close> and is followed by
  \<^verbatim>\<open>+\<close>, and the pattern is accepted: a quantifier inside a nested group that is not
  itself quantified is not seen.\<close>

theorem isSafeRegex_nested_counterexample:
  "nested_any (tokens ''((a+))+'' 0) \<and> isSafeRegex ''((a+))+''"
proof -
  have "nested_any (tokens ''((a+))+'' 0)"
    unfolding nested_any_def tokens_wrapped_plus
    by (rule exI[of _ "[]"], rule exI[of _ "[TOpen, TOther, TQuant, TClose False]"],
        rule exI[of _ "[TQuant]"]) simp
  moreover have "isSafeRegex ''((a+))+''" by code_simp
  ultimately show ?thesis by simp
qed

section \<open>Properties of the pattern matcher\<close>



text \<open>
  Claim C1, as amended.  For every pattern whose anchored form the safe regex compiler
  rejects, and every pathname, \<^const>\<open>matchPattern\<close> does not run the rejected
  expression and does not throw: it falls through to the path template, so its result
  is the test of the expression built from the template when that one compiles, and
  the exact equality of pathname and pattern when that one is rejected as well.
\<close>

theorem matchPattern_rejected_pattern:
  assumes "\<not> isSafeRegex (''^'' @ pattern @ ''$'')"
  shows "matchPattern RegExp pathname pattern =
           (case safeRegExp RegExp (''^'' @ regexStr_loop pattern [] @ ''$'') None of
              Some re \<Rightarrow> re pathname
            | None \<Rightarrow> pathname = pattern) \<and>
         (isSafeRegex (''^'' @ regexStr_loop pattern [] @ ''$'') \<or>
          matchPattern RegExp pathname pattern = (pathname = pattern))"
  using assms
  by (auto simp: matchPattern_def template_match_def safeRegExp_def split: option.splits)

theorem matchPattern_rejected_pattern_witness:
  "\<not> isSafeRegex (''^'' @ ''/(a+)+'' @ ''$'') \<and>
   matchPattern template_RegExp ''/x'' ''/(a+)+'' = (''/x'' = ''/(a+)+'')"
proof -
  have a: "\<not> isSafeRegex (''^'' @ ''/(a+)+'' @ ''$'')" by code_simp
  have b: "\<not> isSafeRegex (''^'' @ regexStr_loop ''/(a+)+'' [] @ ''$'')" by code_simp
  from matchPattern_rejected_pattern[OF a, of template_RegExp "''/x''"] a b
  show ?thesis by blast
qed

text \<open>The pattern \<^verbatim>\<open>/(a+)+\<close> is rejected, and it matches the pathname that is equal to
  it.\<close>

theorem matchPattern_rejected_counterexample:
  "\<not> isSafeRegex (''^'' @ ''/(a+)+'' @ ''$'') \<and>
   matchPattern template_RegExp ''/(a+)+'' ''/(a+)+''"
  by code_simp

text \<open>The pattern \<^verbatim>\<open>(/:a+)+\<close> is rejected in its raw form, and the expression
  built from it as a template, \<^verbatim>\<open>((?:/.+))+\<close>, is accepted.\<close>

lemma rejected_raw_accepted_template:
  "\<not> isSafeRegex ''^(/:a+)+$'' \<and> regexStr_loop ''(/:a+)+'' [] = ''((?:/.+))+'' \<and>
   isSafeRegex ''^((?:/.+))+$''"
  by code_simp




































lemma literal_text_Cons: "literal_text (c # s) = (literal_text [c] \<and> literal_text s)"
  by (auto simp: literal_text_def)
























section \<open>Properties of the matcher configuration\<close>

lemma collect_patterns_skips:
  "e = EntryOther \<or> e = EntryObject None \<Longrightarrow>
   collect_patterns (ms @ e # ms') ps = collect_patterns (ms @ ms') ps"
  by (induction ms ps rule: collect_patterns.induct) auto

text \<open>
  Claim C10.  Without a matcher the middleware runs on every pathname; with an empty
  array of matchers it runs on none; and an entry of the array that is neither a
  string nor an object with a \<^verbatim>\<open>source\<close> field adds no pattern.
\<close>

theorem matchesMiddleware_absent_vs_empty:
  "matchesMiddleware RegExp pathname MatcherUndefined \<and>
   \<not> matchesMiddleware RegExp pathname (MatcherArray []) \<and>
   (e = EntryOther \<or> e = EntryObject None \<longrightarrow>
      collect_patterns (ms @ e # ms') [] = collect_patterns (ms @ ms') [] \<and>
      matchesMiddleware RegExp pathname (MatcherArray (ms @ e # ms')) =
      matchesMiddleware RegExp pathname (MatcherArray (ms @ ms')))"
  using collect_patterns_skips[of e ms ms' "[]"] by simp

theorem matchesMiddleware_absent_vs_empty_witness:
  "matchesMiddleware template_RegExp ''/about'' MatcherUndefined \<and>
   \<not> matchesMiddleware template_RegExp ''/about'' (MatcherArray []) \<and>
   collect_patterns ([EntryString ''/about''] @ EntryOther # [EntryObject (Some ''/docs'')]) [] =
     [''/about'', ''/docs''] \<and>
   matchesMiddleware template_RegExp ''/about''
     (MatcherArray ([EntryString ''/about''] @ EntryOther # [EntryObject (Some ''/docs'')]))"
proof -
  have "matchesMiddleware template_RegExp ''/about''
          (MatcherArray ([EntryString ''/about''] @ [EntryObject (Some ''/docs'')]))"
    by code_simp
  then show ?thesis
    using matchesMiddleware_absent_vs_empty[of template_RegExp "''/about''" EntryOther
        "[EntryString ''/about'']" "[EntryObject (Some ''/docs'')]"]
    by simp
qed

section \<open>Properties of the middleware runner\<close>

lemma copy_headers_filter:
  "copy_headers keep hs forwarded = forwarded @ filter (\<lambda>kv. keep (fst kv)) hs"
  by (induction keep hs forwarded rule: copy_headers.induct) auto

text \<open>What the two branches forward: the continue branch drops both routing headers,
  the rewrite branch drops \<^verbatim>\<open>x-middleware-rewrite\<close> only.\<close>

lemma interpret_response_next:
  assumes "headers_get (headers resp) ''x-middleware-next'' = Some ''1''"
  shows "responseHeaders (interpret_response rt request resp) =
           Some (filter (\<lambda>kv. fst kv \<noteq> ''x-middleware-next'' \<and> fst kv \<noteq> ''x-middleware-rewrite'')
                   (headers resp))"
  using assms by (simp add: interpret_response_def copy_headers_filter)

lemma interpret_response_rewrite:
  assumes "headers_get (headers resp) ''x-middleware-next'' \<noteq> Some ''1''"
    and "\<not> (status resp \<ge> 300 \<and> status resp < 400)"
    and "headers_get (headers resp) ''x-middleware-rewrite'' = Some target" and "target \<noteq> []"
  shows "responseHeaders (interpret_response rt request resp) =
           Some (filter (\<lambda>kv. fst kv \<noteq> ''x-middleware-rewrite'') (headers resp))"
  using assms by (auto simp: interpret_response_def copy_headers_filter Let_def)

lemma example_resolves:
  "resolveMiddlewareHandler (example_module f) ''/app/middleware.ts'' = Inr f"
proof -
  have "\<not> isProxyFile ''/app/middleware.ts''" by code_simp
  then show ?thesis
    by (simp add: resolveMiddlewareHandler_def example_module_def nullish_or_def)
qed




text \<open>
  Claim C8.  A response with the headers \<^verbatim>\<open>x-custom: a\<close>, \<^verbatim>\<open>x-middleware-next: 0\<close>
  and \<^verbatim>\<open>x-middleware-rewrite: /ssr\<close> is read as a rewrite, and the headers forwarded
  with the directive still hold \<^verbatim>\<open>x-middleware-next\<close>.
\<close>

theorem runMiddleware_rewrite_forwards_next:
  "runMiddleware (example_runtime rewriting_middleware None) ''/app/middleware.ts''
       (example_request ''/rewritten'') =
     Inr ((directive True)\<lparr>rewriteUrl := Some ''/ssr'', rewriteStatus := None,
            responseHeaders := Some [(''x-custom'', ''a''), (''x-middleware-next'', ''0'')]\<rparr>)"
proof -
  let ?rt = "example_runtime rewriting_middleware None"
  let ?hs = "[(''x-custom'', ''a''), (''x-middleware-next'', ''0''),
              (''x-middleware-rewrite'', ''/ssr'')]"
  let ?resp = "\<lparr>status = 200, headers = ?hs, body = ''''\<rparr>"
  have load: "ssrLoadModule ?rt ''/app/middleware.ts'' = Inr (example_module rewriting_middleware)"
    by (simp add: example_runtime_def)
  have dec: "decodeURIComponent ?rt ''/rewritten'' = Inr ''/rewritten''"
  proof -
    have "percent_decode ''/rewritten'' = Inr ''/rewritten''" by code_simp
    then show ?thesis by (simp add: example_runtime_def)
  qed
  have norm: "normalizePath ''/rewritten'' = ''/rewritten''" by code_simp
  have mat: "matchesMiddleware (new_RegExp ?rt) ''/rewritten''
               (mod_matcher (example_module rewriting_middleware))"
    by (simp add: example_module_def)
  have call: "rewriting_middleware (example_request ''/rewritten'') = Inr (Some ?resp)"
    by (simp add: rewriting_middleware_def)
  have nxt: "headers_get ?hs ''x-middleware-next'' = Some ''0''" by code_simp
  have loc: "headers_get ?hs ''Location'' = None" "headers_get ?hs ''location'' = None"
    by code_simp+
  have rw: "headers_get ?hs ''x-middleware-rewrite'' = Some ''/ssr''" by code_simp
  have url: "new_URL ?rt ''/ssr'' (example_request ''/rewritten'') = Inr (''/ssr'', [])"
    by (simp add: example_runtime_def)
  have interp: "interpret_response ?rt (example_request ''/rewritten'') ?resp =
     (directive True)\<lparr>rewriteUrl := Some ''/ssr'', rewriteStatus := None,
        responseHeaders := Some [(''x-custom'', ''a''), (''x-middleware-next'', ''0'')]\<rparr>"
    using nxt loc rw url by (simp add: interpret_response_def Let_def)
  have same: "req_pathname (example_request ''/rewritten'') = ''/rewritten''"
    by (simp add: example_request_def)
  show ?thesis
    unfolding runMiddleware_def
    by (simp add: load example_resolves same dec norm mat call interp)
qed

text \<open>
  What the directives forward, once the middleware has returned a response on a
  matching pathname: a response with \<^verbatim>\<open>x-middleware-next: 1\<close> continues with every
  header of the response but \<^verbatim>\<open>x-middleware-next\<close> and \<^verbatim>\<open>x-middleware-rewrite\<close>, in
  their order; a response that is read as a rewrite continues with every header but
  \<^verbatim>\<open>x-middleware-rewrite\<close>.
\<close>

theorem runMiddleware_forwarded_headers:
  assumes "ssrLoadModule rt middlewarePath = Inr exports"
    and "resolveMiddlewareHandler exports middlewarePath = Inr middlewareFn"
    and "decodeURIComponent rt (req_pathname request) = Inr decoded"
    and "matchesMiddleware (new_RegExp rt) (normalizePath decoded) (mod_matcher exports)"
    and "middlewareFn (if normalizePath decoded \<noteq> req_pathname request
                       then with_pathname rt request (normalizePath decoded)
                       else request) = Inr (Some resp)"
  shows "(headers_get (headers resp) ''x-middleware-next'' = Some ''1'' \<longrightarrow>
            (\<exists>r. runMiddleware rt middlewarePath request = Inr r \<and> continue r \<and>
               responseHeaders r =
                 Some (filter (\<lambda>kv. fst kv \<noteq> ''x-middleware-next'' \<and>
                                 fst kv \<noteq> ''x-middleware-rewrite'') (headers resp)))) \<and>
         (headers_get (headers resp) ''x-middleware-next'' \<noteq> Some ''1'' \<and>
          \<not> (status resp \<ge> 300 \<and> status resp < 400) \<and>
          headers_get (headers resp) ''x-middleware-rewrite'' = Some target \<and> target \<noteq> [] \<longrightarrow>
            (\<exists>r. runMiddleware rt middlewarePath request = Inr r \<and> continue r \<and>
               responseHeaders r =
                 Some (filter (\<lambda>kv. fst kv \<noteq> ''x-middleware-rewrite'') (headers resp))))"
proof -
  have run: "runMiddleware rt middlewarePath request = Inr (interpret_response rt request resp)"
    using assms by (simp add: runMiddleware_def Let_def)
  have c1: "continue (interpret_response rt request resp)"
    if "headers_get (headers resp) ''x-middleware-next'' = Some ''1''"
    using that by (simp add: interpret_response_def directive_def)
  have c2: "continue (interpret_response rt request resp)"
    if "headers_get (headers resp) ''x-middleware-next'' \<noteq> Some ''1''"
      "\<not> (status resp \<ge> 300 \<and> status resp < 400)"
      "headers_get (headers resp) ''x-middleware-rewrite'' = Some target" "target \<noteq> []"
    using that by (auto simp: interpret_response_def directive_def Let_def)
  show ?thesis
    using run c1 c2 interpret_response_next[of resp rt request]
      interpret_response_rewrite[of resp target rt request]
    by auto
qed

theorem runMiddleware_forwarded_headers_witness:
  "(\<exists>r. runMiddleware (example_runtime example_middleware None) ''/app/middleware.ts''
          (example_request ''/about'') = Inr r \<and> continue r \<and>
        responseHeaders r = Some [(''x-custom-middleware'', ''active'')])"
proof -
  let ?rt = "example_runtime example_middleware None"
  let ?resp = "\<lparr>status = 200,
      headers = [(''x-custom-middleware'', ''active''), (''x-middleware-next'', ''1'')],
      body = ''''\<rparr>"
  have load: "ssrLoadModule ?rt ''/app/middleware.ts'' = Inr (example_module example_middleware)"
    by (simp add: example_runtime_def)
  have same: "req_pathname (example_request ''/about'') = ''/about''"
    by (simp add: example_request_def)
  have dec: "decodeURIComponent ?rt (req_pathname (example_request ''/about'')) = Inr ''/about''"
  proof -
    have "percent_decode ''/about'' = Inr ''/about''" by code_simp
    then show ?thesis by (simp add: example_runtime_def same)
  qed
  have norm: "normalizePath ''/about'' = ''/about''" by code_simp
  have mat: "matchesMiddleware (new_RegExp ?rt) (normalizePath ''/about'')
               (mod_matcher (example_module example_middleware))"
    by (simp add: example_module_def)
  have call: "example_middleware (if normalizePath ''/about'' \<noteq> req_pathname (example_request ''/about'')
                 then with_pathname ?rt (example_request ''/about'') (normalizePath ''/about'')
                 else example_request ''/about'') = Inr (Some ?resp)"
    by (simp add: norm same example_middleware_def)
  have nxt: "headers_get (headers ?resp) ''x-middleware-next'' = Some ''1''"
  proof -
    have "headers_get [(''x-custom-middleware'', ''active''), (''x-middleware-next'', ''1'')]
            ''x-middleware-next'' = Some ''1''" by code_simp
    then show ?thesis by simp
  qed
  from runMiddleware_forwarded_headers[OF load example_resolves dec mat call] nxt
  show ?thesis by simp
qed

section \<open>Properties of the worker entries\<close>

text \<open>
  Claim C9.  When the pathname of the request, with every backslash replaced by a
  slash, starts with \<^verbatim>\<open>//\<close>, both worker entries answer 404 and leave the state of
  the world as it was, whatever the handlers behind them are: none of them is called.
\<close>

theorem worker_entry_blocks_protocol_relative:
  assumes "startsWith ''//'' (replace_backslashes (req_pathname request))"
  shows "app_router_fetch rt rscHandler request w =
           (Inr (new_Response ''404 Not Found'' 404), w) \<and>
         pages_router_fetch handleApiRoute renderPage request w =
           (Inr (new_Response ''404 Not Found'' 404), w)"
  using assms by (simp add: app_router_fetch_def pages_router_fetch_def Let_def)

theorem worker_entry_blocks_protocol_relative_witness:
  "startsWith ''//'' (replace_backslashes (req_pathname
      (example_request (CHR ''/'' # backslash # ''evil.com'')))) \<and>
   app_router_fetch (example_runtime example_middleware None) counting_rsc
       (example_request (CHR ''/'' # backslash # ''evil.com'')) (0::nat) =
     (Inr (new_Response ''404 Not Found'' 404), 0) \<and>
   pages_router_fetch counting_page counting_page
       (example_request (CHR ''/'' # backslash # ''evil.com'')) (0::nat) =
     (Inr (new_Response ''404 Not Found'' 404), 0) \<and>
   snd (pages_router_fetch counting_page counting_page (example_request ''/about'') (0::nat)) = 1"
proof -
  have h: "startsWith ''//'' (replace_backslashes (req_pathname
      (example_request (CHR ''/'' # backslash # ''evil.com''))))"
    by (simp add: example_request_def replace_backslashes_def)
  have c: "snd (pages_router_fetch counting_page counting_page (example_request ''/about'') (0::nat)) = 1"
    by (simp add: pages_router_fetch_def counting_page_def example_request_def
        replace_backslashes_def Let_def)
  from worker_entry_blocks_protocol_relative[OF h,
      of "example_runtime example_middleware None" counting_rsc "0::nat" counting_page counting_page]
    h c
  show ?thesis by simp
qed

end
